theory Spec2Isabelle
  imports Complex_Main "HOL-Library.Word"
begin

unbundle bit_operations_syntax

section \<open>The abstract machine and its outcomes\<close>

text \<open>
  \<^verbatim>\<open>constexpr size_t TAPE_SIZE = 30000; constexpr size_t MAX_NESTING = 100;\<close>
\<close>

definition TAPE_SIZE :: nat where
  "TAPE_SIZE = 30000"

definition MAX_NESTING :: nat where
  "MAX_NESTING = 100"

text \<open>
  How a run can end badly. \<open>Terminate\<close> is the call of \<^verbatim>\<open>std::terminate()\<close>;
  the others are the places where the C++ has no defined behaviour at all:
  dereferencing \<^verbatim>\<open>state->ptr\<close> outside \<^verbatim>\<open>tape[0 .. TAPE_SIZE)\<close>,
  \<^verbatim>\<open>jmpLocIndex.back()\<close> on an empty vector, a store \<^verbatim>\<open>mem[i] = ...\<close> past
  the end of the mapped region, and the read \<^verbatim>\<open>*tok\<close> of the code generator at
  \<^verbatim>\<open>program->cend()\<close>, one past the last character of the text (\<open>ReadPastEnd\<close>).
  The last three are the ways the generated code can
  leave the instructions the generator emits: bytes that are none of them, a jump
  out of the code, and a system call other than the two it sets up.
\<close>

datatype fault =
    Terminate | TapeOutOfRange | BackOfEmptyVector | OutsideMapping | ReadPastEnd
  | IllegalInstruction | WildJump | BadSyscall

datatype 'a status = Running 'a | Returned 'a | Failed fault

text \<open>
  The program text. \<^verbatim>\<open>bfInterpret\<close> receives a \<^verbatim>\<open>const char*\<close> and stops at
  the terminating NUL; the text is modelled by its characters, and the character
  read at the position just past them is that NUL.
\<close>

definition NUL :: char where
  "NUL = CHR 0x00"

definition charAt :: "string \<Rightarrow> nat \<Rightarrow> char" where
  "charAt p i = (if i < length p then p ! i else NUL)"

text \<open>
  \<^verbatim>\<open>for (n = 1; *program == c; ++n, ++program);\<close> started at position \<open>i\<close>
  advances over \<open>runLen p c i\<close> characters.
\<close>

definition runLen :: "string \<Rightarrow> char \<Rightarrow> nat \<Rightarrow> nat" where
  "runLen p c i = length (takeWhile (\<lambda>x. x = c) (drop i p))"

text \<open>
  The host's byte streams. \<^verbatim>\<open>std::getchar()\<close> returns the next byte as an
  \<^verbatim>\<open>int\<close>, or \<^verbatim>\<open>EOF\<close> when the stream is exhausted, and then sets the stream's
  end-of-file indicator. \<^verbatim>\<open>EOF\<close> comes from \<^verbatim>\<open><cstdio>\<close>, where it is \<open>-1\<close>.
\<close>

definition EOF :: int where
  "EOF = - 1"

definition getchar :: "8 word list \<Rightarrow> int \<times> 8 word list" where
  "getchar inp = (case inp of [] \<Rightarrow> (EOF, []) | b # bs \<Rightarrow> (uint b, bs))"

section \<open>The interpreter\<close>

text \<open>
  The state of \<^verbatim>\<open>bfInterpret\<close>: the pointer \<open>program\<close> as an index into the
  text, the \<^verbatim>\<open>bfState\<close> (\<open>tape\<close>, and \<open>ptr\<close> as an index relative to
  \<^verbatim>\<open>tape\<close>), the array \<open>loops[0 .. nloops)\<close> as a stack with its top at the head,
  the counter \<open>nskip\<close>, and the two host streams (\<open>stdin_eof\<close> is the end-of-file
  indicator of the input stream).
\<close>

record interp =
  program :: nat
  tape :: "nat \<Rightarrow> 8 word"
  ptr :: int
  loops :: "nat list"
  nskip :: nat
  stdin :: "8 word list"
  stdin_eof :: bool
  stdout :: "8 word list"

definition inRange :: "int \<Rightarrow> bool" where
  "inRange p = (0 \<le> p \<and> p < int TAPE_SIZE)"

definition cell :: "interp \<Rightarrow> 8 word" where
  "cell c = tape c (nat (ptr c))"

definition setCell :: "8 word \<Rightarrow> interp \<Rightarrow> interp" where
  "setCell v c = c\<lparr>tape := (tape c)(nat (ptr c) := v)\<rparr>"

text \<open>One turn of \<^verbatim>\<open>while(true) switch(*program++)\<close>, in the order of the cases.\<close>

definition bfStep :: "string \<Rightarrow> interp \<Rightarrow> interp status" where
  "bfStep p c =
    (let ch = charAt p (program c);
         c1 = c\<lparr>program := program c + 1\<rparr>;
         n = 1 + runLen p ch (program c1);
         c2 = c1\<lparr>program := program c1 + runLen p ch (program c1)\<rparr>
     in
     if ch = CHR ''<'' then
       (if nskip c = 0 then Running (c2\<lparr>ptr := ptr c - int n\<rparr>) else Running c2)
     else if ch = CHR ''>'' then
       (if nskip c = 0 then Running (c2\<lparr>ptr := ptr c + int n\<rparr>) else Running c2)
     else if ch = CHR ''+'' then
       (if nskip c = 0 then
          (if inRange (ptr c) then Running (setCell (cell c + of_nat n) c2)
           else Failed TapeOutOfRange)
        else Running c2)
     else if ch = CHR ''-'' then
       (if nskip c = 0 then
          (if inRange (ptr c) then Running (setCell (cell c - of_nat n) c2)
           else Failed TapeOutOfRange)
        else Running c2)
     else if ch = CHR '','' then
       (if nskip c = 0 then
          (if inRange (ptr c) then
             (let (r, rest) = getchar (stdin c) in
              Running (setCell (word_of_int r)
                (c1\<lparr>stdin := rest, stdin_eof := (stdin_eof c \<or> r = EOF)\<rparr>)))
           else Failed TapeOutOfRange)
        else Running c1)
     else if ch = CHR ''.'' then
       (if nskip c = 0 then
          (if inRange (ptr c) then Running (c1\<lparr>stdout := stdout c @ [cell c]\<rparr>)
           else Failed TapeOutOfRange)
        else Running c1)
     else if ch = CHR ''['' then
       (if length (loops c) = MAX_NESTING then Failed Terminate
        else if \<not> inRange (ptr c) then Failed TapeOutOfRange
        else Running (c1\<lparr>loops := program c1 # loops c,
                         nskip := (if cell c = 0 then nskip c + 1 else nskip c)\<rparr>))
     else if ch = CHR '']'' then
       (if loops c = [] then Failed Terminate
        else if \<not> inRange (ptr c) then Failed TapeOutOfRange
        else Running
          ((if cell c \<noteq> 0 then c1\<lparr>program := hd (loops c)\<rparr>
            else c1\<lparr>loops := tl (loops c)\<rparr>)
           \<lparr>nskip := (if nskip c \<noteq> 0 then nskip c - 1 else nskip c)\<rparr>))
     else if ch = CHR '' '' then Running c2
     else if ch = NUL then Returned c1
     else Running c1)"

text \<open>
  The loop may run forever, so the run is given fuel: \<open>None\<close> when \<open>k\<close> turns
  were not enough to leave the loop.
\<close>

fun bfInterpret :: "nat \<Rightarrow> string \<Rightarrow> interp \<Rightarrow> interp status option" where
  "bfInterpret 0 p c = None"
| "bfInterpret (Suc k) p c =
     (case bfStep p c of Running c' \<Rightarrow> bfInterpret k p c' | r \<Rightarrow> Some r)"

text \<open>\<^verbatim>\<open>bfRunDefault\<close>: a fresh, zeroed \<^verbatim>\<open>bfState\<close> with \<open>ptr = tape\<close>.\<close>

definition initInterp :: "8 word list \<Rightarrow> interp" where
  "initInterp inp =
     \<lparr>program = 0, tape = (\<lambda>_. 0), ptr = 0, loops = [], nskip = 0,
      stdin = inp, stdin_eof = False, stdout = []\<rparr>"

definition bfRunDefault :: "nat \<Rightarrow> string \<Rightarrow> 8 word list \<Rightarrow> interp status option" where
  "bfRunDefault k p inp = bfInterpret k p (initInterp inp)"

section \<open>The code generator\<close>

text \<open>
  \<^verbatim>\<open>_resolvePtrAddr\<close> and \<^verbatim>\<open>_resolveAddrDiff\<close>: the bytes of a 64-bit address and of a
  32-bit difference, least significant first.
\<close>

definition resolvePtrAddr :: "64 word \<Rightarrow> 8 word list" where
  "resolvePtrAddr ptrAddr =
     [ucast (ptrAddr AND 0xff),
      ucast (drop_bit 8 (ptrAddr AND 0xff00)),
      ucast (drop_bit 16 (ptrAddr AND 0xff0000)),
      ucast (drop_bit 24 (ptrAddr AND 0xff000000)),
      ucast (drop_bit 32 (ptrAddr AND 0xff00000000)),
      ucast (drop_bit 40 (ptrAddr AND 0xff0000000000)),
      ucast (drop_bit 48 (ptrAddr AND 0xff000000000000)),
      ucast (drop_bit 56 (ptrAddr AND 0xff00000000000000))]"

definition resolveAddrDiff :: "32 word \<Rightarrow> 8 word list" where
  "resolveAddrDiff addrDiff =
     [ucast (addrDiff AND 0xff),
      ucast (drop_bit 8 (addrDiff AND 0xff00)),
      ucast (drop_bit 16 (addrDiff AND 0xff0000)),
      ucast (drop_bit 24 (addrDiff AND 0xff000000))]"

text \<open>
  The two vectors of \<^verbatim>\<open>bfJITCompile\<close>. \<open>jmpLocIndex\<close> is used as a stack
  (\<^verbatim>\<open>push_back\<close>, \<^verbatim>\<open>back\<close>, \<^verbatim>\<open>pop_back\<close>): its back is the head of the list.
\<close>

record jit =
  machineCode :: "8 word list"
  jmpLocIndex :: "nat list"

definition appendBytecode :: "8 word list \<Rightarrow> jit \<Rightarrow> jit" where
  "appendBytecode byteCode st = st\<lparr>machineCode := machineCode st @ byteCode\<rparr>"

definition readSyscall :: "8 word list" where
  "readSyscall =
     [0xb8, 0x3, 0x0, 0x0, 0x2,
      0xbf, 0x0, 0x0, 0x0, 0x0,
      0x48, 0x89, 0xde,
      0xba, 0x1, 0x0, 0x0, 0x0,
      0xf, 0x5]"

definition writeSyscall :: "8 word list" where
  "writeSyscall =
     [0xb8, 0x4, 0x0, 0x0, 0x2,
      0xbf, 0x1, 0x0, 0x0, 0x0,
      0x48, 0x89, 0xde,
      0xba, 0x1, 0x0, 0x0, 0x0,
      0xf, 0x5]"

text \<open>
  \<^verbatim>\<open>case '['\<close>: the comparison and the \<^verbatim>\<open>je\<close> with four placeholder bytes are
  appended, then the size of the code is pushed.
\<close>

definition openLoop :: "jit \<Rightarrow> jit" where
  "openLoop st =
     (let st1 = appendBytecode [0x80, 0x3b, 0x0, 0xf, 0x84, 0x0, 0x0, 0x0, 0x0] st
      in st1\<lparr>jmpLocIndex := length (machineCode st1) # jmpLocIndex st1\<rparr>)"

text \<open>
  \<^verbatim>\<open>case ']'\<close> up to \<^verbatim>\<open>pop_back\<close>. Both differences are computed in \<^verbatim>\<open>size_t\<close> and
  cast to \<^verbatim>\<open>uint32_t\<close>; the last four bytes are replaced by \<open>bDiff\<close>, the four bytes
  before position \<open>back\<close> by \<open>fDiff\<close>. Nothing checks that the vector has a back.
\<close>

definition closeLoop :: "jit \<Rightarrow> fault + jit" where
  "closeLoop st =
     (let mc1 = machineCode st @ [0x80, 0x3b, 0x0, 0xf, 0x85, 0x0, 0x0, 0x0, 0x0]
      in case jmpLocIndex st of
           [] \<Rightarrow> Inl BackOfEmptyVector
         | back # rest \<Rightarrow>
             (let bDiff = resolveAddrDiff (of_nat back - of_nat (length mc1));
                  fDiff = resolveAddrDiff (of_nat (length mc1) - of_nat back);
                  mc2 = take (length mc1 - 4) mc1 @ bDiff;
                  mc3 = take (back - 4) mc2 @ fDiff @ drop back mc2
              in Inr \<lparr>machineCode = mc3, jmpLocIndex = rest\<rparr>))"

text \<open>
  \<^verbatim>\<open>// reduce unnecessary cmp.\<close> With \<open>n\<close> further closing brackets right after
  this one, a two-byte jump is appended.
\<close>

definition skipClosers :: "nat \<Rightarrow> jit \<Rightarrow> jit" where
  "skipClosers n st =
     (if n > 0 then appendBytecode [0xeb, of_nat (n * 11 - 2)] st else st)"

text \<open>
  The loop \<^verbatim>\<open>for (auto tok = program->cbegin(); tok != program->cend(); ++tok)\<close>.
  The iterator is the text that remains from \<open>tok\<close> on. A run of \<open>n\<close> equal
  characters is counted by \<^verbatim>\<open>for (n = 0; *tok == c; ++n, ++tok);\<close> and the count is
  cast to \<^verbatim>\<open>uint8_t\<close>. Neither this loop nor the look-ahead
  \<^verbatim>\<open>for (n = 0; *ctok == ']'; ++n, ++ctok);\<close> after a closing bracket tests for
  the end of the text: it stops at the first character that differs, and when there
  is none before the end of the vector it reads \<^verbatim>\<open>*program->cend()\<close>, which is
  \<open>ReadPastEnd\<close>. So a text is only translated when its last character is neither
  one of \<open>+ - > <\<close> nor \<open>]\<close>.
\<close>

function codegen :: "string \<Rightarrow> jit \<Rightarrow> fault + jit" where
  "codegen [] st = Inr st"
| "codegen (c # cs) st =
     (let n = Suc (length (takeWhile (\<lambda>x. x = c) cs))
      in
      if c = CHR ''+'' then
        (if dropWhile (\<lambda>x. x = c) cs = [] then Inl ReadPastEnd
         else codegen (dropWhile (\<lambda>x. x = c) cs) (appendBytecode [0x80, 0x3, of_nat n] st))
      else if c = CHR ''-'' then
        (if dropWhile (\<lambda>x. x = c) cs = [] then Inl ReadPastEnd
         else codegen (dropWhile (\<lambda>x. x = c) cs) (appendBytecode [0x80, 0x2b, of_nat n] st))
      else if c = CHR ''>'' then
        (if dropWhile (\<lambda>x. x = c) cs = [] then Inl ReadPastEnd
         else codegen (dropWhile (\<lambda>x. x = c) cs)
                (appendBytecode [0x48, 0x83, 0xc3, of_nat n] st))
      else if c = CHR ''<'' then
        (if dropWhile (\<lambda>x. x = c) cs = [] then Inl ReadPastEnd
         else codegen (dropWhile (\<lambda>x. x = c) cs)
                (appendBytecode [0x48, 0x83, 0xeb, of_nat n] st))
      else if c = CHR '','' then codegen cs (appendBytecode readSyscall st)
      else if c = CHR ''.'' then codegen cs (appendBytecode writeSyscall st)
      else if c = CHR ''['' then codegen cs (openLoop st)
      else if c = CHR '']'' then
        (case closeLoop st of
           Inl f \<Rightarrow> Inl f
         | Inr st' \<Rightarrow>
             if dropWhile (\<lambda>x. x = CHR '']'') cs = [] then Inl ReadPastEnd
             else codegen cs (skipClosers (length (takeWhile (\<lambda>x. x = CHR '']'') cs)) st'))
      else codegen cs st)"
  by pat_completeness auto
termination
  by (relation "measure (\<lambda>(p, st). length p)")
     (auto simp: less_Suc_eq_le length_dropWhile_le)

text \<open>
  \<^verbatim>\<open>bfJITCompile\<close> up to the call of \<^verbatim>\<open>setupExecutableMem\<close>: the prologue
  \<^verbatim>\<open>movabs $ptrAddr, %rbx\<close>, the code of the text, the epilogue
  \<^verbatim>\<open>pop %rax; jmpq *%rax\<close>. \<open>ptrAddr\<close> is the address \<^verbatim>\<open>state->ptr\<close>.
\<close>

definition prologue :: "64 word \<Rightarrow> 8 word list" where
  "prologue ptrAddr = [0x48, 0xbb] @ resolvePtrAddr ptrAddr"

definition epilogue :: "8 word list" where
  "epilogue = [0x58, 0xff, 0xe0]"

definition bfJITCompile :: "string \<Rightarrow> 64 word \<Rightarrow> fault + 8 word list" where
  "bfJITCompile prog ptrAddr =
     (case codegen prog \<lparr>machineCode = prologue ptrAddr, jmpLocIndex = []\<rparr> of
        Inl f \<Rightarrow> Inl f
      | Inr st \<Rightarrow> Inr (machineCode st @ epilogue))"

section \<open>Executable memory\<close>

text \<open>
  \<^verbatim>\<open>setupExecutableMem\<close> asks \<^verbatim>\<open>mmap\<close> for
  \<^verbatim>\<open>static_cast<size_t>(std::ceil(machineCode->size() / static_cast<double>(pageSize)))\<close>
  bytes. The quotient is taken exactly here (the sizes are far below the range where
  a \<^verbatim>\<open>double\<close> rounds).
\<close>

definition mmapLength :: "nat \<Rightarrow> nat \<Rightarrow> nat" where
  "mmapLength pageSize sz = nat \<lceil>real sz / real pageSize\<rceil>"

text \<open>
  The host's \<^verbatim>\<open>mmap\<close> is a parameter: for a requested length it gives the number of
  bytes of the new mapping, or \<open>None\<close> for \<^verbatim>\<open>MAP_FAILED\<close>. The kernel maps whole
  pages, so a successful anonymous mapping has \<open>pageRound\<close> of the requested length.
\<close>

definition pageRound :: "nat \<Rightarrow> nat \<Rightarrow> nat" where
  "pageRound pageSize len = ((len + pageSize - 1) div pageSize) * pageSize"

definition kernelMmap :: "nat \<Rightarrow> nat \<Rightarrow> nat option" where
  "kernelMmap pageSize len = (if len = 0 then None else Some (pageRound pageSize len))"

text \<open>
  What \<^verbatim>\<open>setupExecutableMem\<close> does with the code: \<open>Exit 1\<close> after the message when
  the mapping failed, otherwise the copy loop \<^verbatim>\<open>mem[i] = machineCode->at(i)\<close> for every
  \<open>i < size\<close>, then the jump into the region (\<open>Entered\<close>, with the bytes the
  region now holds).
\<close>

datatype launch = Exit nat | Entered "8 word list" | Crashed fault

definition setupExecutableMem :: "(nat \<Rightarrow> nat option) \<Rightarrow> nat \<Rightarrow> 8 word list \<Rightarrow> launch" where
  "setupExecutableMem mmap pageSize mc =
     (case mmap (mmapLength pageSize (length mc)) of
        None \<Rightarrow> Exit 1
      | Some region \<Rightarrow>
          if length mc \<le> region then Entered mc else Crashed OutsideMapping)"

section \<open>The generated code on the processor\<close>

text \<open>
  The generated bytes are x86-64 machine code; what they do is given by the
  processor and by the system calls of the host, here for exactly the instructions
  the generator emits (the mnemonics are those of the comments in
  \<^verbatim>\<open>bfJITCompile\<close>):
  \<^verbatim>\<open>48 bb imm64\<close> is \<^verbatim>\<open>movabs $imm64, %rbx\<close>;
  \<^verbatim>\<open>80 03 ib\<close>, \<^verbatim>\<open>80 2b ib\<close>, \<^verbatim>\<open>80 3b ib\<close> are \<^verbatim>\<open>addb\<close>, \<^verbatim>\<open>subb\<close>, \<^verbatim>\<open>cmpb $ib, (%rbx)\<close>;
  \<^verbatim>\<open>48 83 c3 ib\<close> and \<^verbatim>\<open>48 83 eb ib\<close> are \<^verbatim>\<open>add\<close> and \<^verbatim>\<open>sub $ib, %rbx\<close>, whose
  8-bit immediate is sign-extended to 64 bits;
  \<^verbatim>\<open>b8\<close>, \<^verbatim>\<open>bf\<close>, \<^verbatim>\<open>ba imm32\<close> are \<^verbatim>\<open>mov $imm32\<close> to \<^verbatim>\<open>%eax\<close>, \<^verbatim>\<open>%edi\<close>, \<^verbatim>\<open>%edx\<close>
  (the upper half of the register is cleared); \<^verbatim>\<open>48 89 de\<close> is \<^verbatim>\<open>mov %rbx, %rsi\<close>;
  \<^verbatim>\<open>0f 05\<close> is \<^verbatim>\<open>syscall\<close>; \<^verbatim>\<open>0f 84 rel32\<close> and \<^verbatim>\<open>0f 85 rel32\<close> are \<^verbatim>\<open>je\<close> and
  \<^verbatim>\<open>jne\<close>, \<^verbatim>\<open>eb rel8\<close> is the short \<^verbatim>\<open>jmp\<close>, all three relative to the end of the
  instruction with a signed displacement; \<^verbatim>\<open>58\<close> is \<^verbatim>\<open>pop %rax\<close> and \<^verbatim>\<open>ff e0\<close> is
  \<^verbatim>\<open>jmpq *%rax\<close>.
\<close>

text \<open>An immediate operand: bytes, least significant first.\<close>

fun leWord :: "8 word list \<Rightarrow> 'a::len word" where
  "leWord [] = 0"
| "leWord (b # bs) = ucast b OR push_bit 8 (leWord bs)"

datatype instr =
    MovabsRbx "64 word" | AddbMem "8 word" | SubbMem "8 word" | CmpbMem "8 word"
  | AddRbx "8 word" | SubRbx "8 word"
  | MovEax "32 word" | MovEdi "32 word" | MovEdx "32 word" | MovRsiRbx | Syscall
  | Je "32 word" | Jne "32 word" | JmpShort "8 word" | PopRax | JmpRax

text \<open>The instruction that starts the bytes \<open>bs\<close>, and its length.\<close>

definition decode :: "8 word list \<Rightarrow> (instr \<times> nat) option" where
  "decode bs =
    (if take 2 bs = [0x48, 0xbb] \<and> 10 \<le> length bs then
       Some (MovabsRbx (leWord (take 8 (drop 2 bs))), 10)
     else if take 2 bs = [0x80, 0x03] \<and> 3 \<le> length bs then Some (AddbMem (bs ! 2), 3)
     else if take 2 bs = [0x80, 0x2b] \<and> 3 \<le> length bs then Some (SubbMem (bs ! 2), 3)
     else if take 2 bs = [0x80, 0x3b] \<and> 3 \<le> length bs then Some (CmpbMem (bs ! 2), 3)
     else if take 3 bs = [0x48, 0x83, 0xc3] \<and> 4 \<le> length bs then Some (AddRbx (bs ! 3), 4)
     else if take 3 bs = [0x48, 0x83, 0xeb] \<and> 4 \<le> length bs then Some (SubRbx (bs ! 3), 4)
     else if take 3 bs = [0x48, 0x89, 0xde] then Some (MovRsiRbx, 3)
     else if take 1 bs = [0xb8] \<and> 5 \<le> length bs then
       Some (MovEax (leWord (take 4 (drop 1 bs))), 5)
     else if take 1 bs = [0xbf] \<and> 5 \<le> length bs then
       Some (MovEdi (leWord (take 4 (drop 1 bs))), 5)
     else if take 1 bs = [0xba] \<and> 5 \<le> length bs then
       Some (MovEdx (leWord (take 4 (drop 1 bs))), 5)
     else if take 2 bs = [0x0f, 0x05] then Some (Syscall, 2)
     else if take 2 bs = [0x0f, 0x84] \<and> 6 \<le> length bs then
       Some (Je (leWord (take 4 (drop 2 bs))), 6)
     else if take 2 bs = [0x0f, 0x85] \<and> 6 \<le> length bs then
       Some (Jne (leWord (take 4 (drop 2 bs))), 6)
     else if take 1 bs = [0xeb] \<and> 2 \<le> length bs then Some (JmpShort (bs ! 1), 2)
     else if take 1 bs = [0x58] then Some (PopRax, 1)
     else if take 2 bs = [0xff, 0xe0] then Some (JmpRax, 2)
     else None)"

text \<open>
  The processor state the code can touch: \<open>rip\<close> as an offset into the region that
  holds the code, five registers, the zero flag, the stack (its top is the return
  address pushed by \<^verbatim>\<open>setupExecutableMem\<close>), the cells of the tape, and the two
  streams behind file descriptors 0 and 1.
\<close>

record x86 =
  rip :: nat
  rax :: "64 word"
  rbx :: "64 word"
  rdi :: "64 word"
  rsi :: "64 word"
  rdx :: "64 word"
  zf :: bool
  stack :: "64 word list"
  cells :: "nat \<Rightarrow> 8 word"
  fd0 :: "8 word list"
  fd1 :: "8 word list"

text \<open>
  The tape lies at the addresses \<open>tapeAddr .. tapeAddr + TAPE_SIZE - 1\<close>; an address is
  one of its cells when its distance from \<open>tapeAddr\<close> is below \<open>TAPE_SIZE\<close>.
\<close>

definition onTape :: "64 word \<Rightarrow> 64 word \<Rightarrow> bool" where
  "onTape tapeAddr a = (unat (a - tapeAddr) < TAPE_SIZE)"

definition cellAt :: "64 word \<Rightarrow> 64 word \<Rightarrow> nat" where
  "cellAt tapeAddr a = unat (a - tapeAddr)"

definition jumpBy :: "int \<Rightarrow> x86 \<Rightarrow> x86 status" where
  "jumpBy d s =
     (if 0 \<le> int (rip s) + d then Running (s\<lparr>rip := nat (int (rip s) + d)\<rparr>)
      else Failed WildJump)"

text \<open>
  The two system calls (numbers \<open>0x2000003\<close> and \<open>0x2000004\<close>: \<^verbatim>\<open>read\<close> and
  \<^verbatim>\<open>write\<close>) with the arguments the code sets up: one byte, descriptor 0 or 1,
  buffer \<open>%rsi\<close>. At end of input \<^verbatim>\<open>read\<close> returns 0 and stores nothing.
\<close>

definition syscall :: "64 word \<Rightarrow> x86 \<Rightarrow> x86 status" where
  "syscall tapeAddr s =
     (if rax s = 0x2000003 \<and> rdi s = 0 \<and> rdx s = 1 then
        (if \<not> onTape tapeAddr (rsi s) then Failed TapeOutOfRange
         else case fd0 s of
                [] \<Rightarrow> Running (s\<lparr>rax := 0\<rparr>)
              | b # bs \<Rightarrow>
                  Running (s\<lparr>rax := 1, fd0 := bs,
                             cells := (cells s)(cellAt tapeAddr (rsi s) := b)\<rparr>))
      else if rax s = 0x2000004 \<and> rdi s = 1 \<and> rdx s = 1 then
        (if \<not> onTape tapeAddr (rsi s) then Failed TapeOutOfRange
         else Running (s\<lparr>rax := 1, fd1 := fd1 s @ [cells s (cellAt tapeAddr (rsi s))]\<rparr>))
      else Failed BadSyscall)"

text \<open>
  One instruction. \<open>ret\<close> is the address \<^verbatim>\<open>setupExecutableMem\<close> pushed: the jump
  to it is the return to the C++ code.
\<close>

definition execInstr :: "64 word \<Rightarrow> 64 word \<Rightarrow> instr \<Rightarrow> x86 \<Rightarrow> x86 status" where
  "execInstr tapeAddr ret i s =
     (case i of
        MovabsRbx v \<Rightarrow> Running (s\<lparr>rbx := v\<rparr>)
      | AddbMem v \<Rightarrow>
          (if onTape tapeAddr (rbx s) then
             (let r = cells s (cellAt tapeAddr (rbx s)) + v
              in Running (s\<lparr>zf := (r = 0), cells := (cells s)(cellAt tapeAddr (rbx s) := r)\<rparr>))
           else Failed TapeOutOfRange)
      | SubbMem v \<Rightarrow>
          (if onTape tapeAddr (rbx s) then
             (let r = cells s (cellAt tapeAddr (rbx s)) - v
              in Running (s\<lparr>zf := (r = 0), cells := (cells s)(cellAt tapeAddr (rbx s) := r)\<rparr>))
           else Failed TapeOutOfRange)
      | CmpbMem v \<Rightarrow>
          (if onTape tapeAddr (rbx s) then
             Running (s\<lparr>zf := (cells s (cellAt tapeAddr (rbx s)) = v)\<rparr>)
           else Failed TapeOutOfRange)
      | AddRbx v \<Rightarrow> Running (s\<lparr>rbx := rbx s + scast v, zf := (rbx s + scast v = 0)\<rparr>)
      | SubRbx v \<Rightarrow> Running (s\<lparr>rbx := rbx s - scast v, zf := (rbx s - scast v = 0)\<rparr>)
      | MovEax v \<Rightarrow> Running (s\<lparr>rax := ucast v\<rparr>)
      | MovEdi v \<Rightarrow> Running (s\<lparr>rdi := ucast v\<rparr>)
      | MovEdx v \<Rightarrow> Running (s\<lparr>rdx := ucast v\<rparr>)
      | MovRsiRbx \<Rightarrow> Running (s\<lparr>rsi := rbx s\<rparr>)
      | Syscall \<Rightarrow> syscall tapeAddr s
      | Je d \<Rightarrow> (if zf s then jumpBy (sint d) s else Running s)
      | Jne d \<Rightarrow> (if zf s then Running s else jumpBy (sint d) s)
      | JmpShort d \<Rightarrow> jumpBy (sint d) s
      | PopRax \<Rightarrow>
          (case stack s of
             [] \<Rightarrow> Failed WildJump
           | v # vs \<Rightarrow> Running (s\<lparr>rax := v, stack := vs\<rparr>))
      | JmpRax \<Rightarrow> (if rax s = ret then Returned s else Failed WildJump))"

text \<open>Fetch at \<open>rip\<close>, advance \<open>rip\<close> past the instruction, execute.\<close>

definition x86Step :: "8 word list \<Rightarrow> 64 word \<Rightarrow> 64 word \<Rightarrow> x86 \<Rightarrow> x86 status" where
  "x86Step code tapeAddr ret s =
     (case decode (drop (rip s) code) of
        None \<Rightarrow> Failed IllegalInstruction
      | Some (i, len) \<Rightarrow> execInstr tapeAddr ret i (s\<lparr>rip := rip s + len\<rparr>))"

fun x86Run :: "nat \<Rightarrow> 8 word list \<Rightarrow> 64 word \<Rightarrow> 64 word \<Rightarrow> x86 \<Rightarrow> x86 status option" where
  "x86Run 0 code tapeAddr ret s = None"
| "x86Run (Suc k) code tapeAddr ret s =
     (case x86Step code tapeAddr ret s of
        Running s' \<Rightarrow> x86Run k code tapeAddr ret s'
      | r \<Rightarrow> Some r)"

text \<open>
  \<^verbatim>\<open>bfRunJIT\<close>: a fresh \<^verbatim>\<open>bfState\<close> (zeroed tape at \<open>tapeAddr\<close>, \<open>ptr = tape\<close>), the
  code generated for it, the mapping, and the jump to the first byte of the region
  with the return address on the stack. The registers hold what the caller left in
  them (\<open>regs\<close>).
\<close>

definition entry :: "x86 \<Rightarrow> 64 word \<Rightarrow> 8 word list \<Rightarrow> x86" where
  "entry regs ret inp =
     regs\<lparr>rip := 0, stack := ret # stack regs, cells := (\<lambda>_. 0), fd0 := inp, fd1 := []\<rparr>"

definition bfRunJIT ::
  "nat \<Rightarrow> (nat \<Rightarrow> nat option) \<Rightarrow> nat \<Rightarrow> x86 \<Rightarrow> 64 word \<Rightarrow> 64 word \<Rightarrow>
   string \<Rightarrow> 8 word list \<Rightarrow> x86 status option" where
  "bfRunJIT k mmap pageSize regs tapeAddr ret prog inp =
     (case bfJITCompile prog tapeAddr of
        Inl f \<Rightarrow> Some (Failed f)
      | Inr mc \<Rightarrow>
          (case setupExecutableMem mmap pageSize mc of
             Exit n \<Rightarrow> Some (Failed Terminate)
           | Crashed f \<Rightarrow> Some (Failed f)
           | Entered code \<Rightarrow> x86Run k code tapeAddr ret (entry regs ret inp)))"

section \<open>Notions used to state the properties\<close>

text \<open>The text up to its first NUL, as a C string reads it.\<close>

definition text0 :: "string \<Rightarrow> string" where
  "text0 p = takeWhile (\<lambda>x. x \<noteq> NUL) p"

text \<open>
  Every position the interpreter holds (the pointer \<open>program\<close> and the saved loop
  starts) is at or before the first NUL.
\<close>

definition withinText :: "string \<Rightarrow> interp \<Rightarrow> bool" where
  "withinText p c =
     (program c \<le> length (text0 p) \<and> list_all (\<lambda>e. e \<le> length (text0 p)) (loops c))"

text \<open>A suppressed interpreter state used to exercise the frame property.\<close>

definition suppressedAt :: "nat \<Rightarrow> interp" where
  "suppressedAt i =
     \<lparr>program = i, tape = (\<lambda>_. 0), ptr = 0, loops = [1], nskip = 1,
      stdin = [65], stdin_eof = False, stdout = []\<rparr>"

text \<open>Thirteen nested loops: twelve closing brackets directly follow the first one.\<close>

definition thirteen :: string where
  "thirteen = ''[[[[[[[[[[[[[-]]]]]]]]]]]]]''"

section \<open>The shape of well-nested texts and of their code\<close>

text \<open>The number of closing brackets a text starts with.\<close>

definition closers :: "string \<Rightarrow> nat" where
  "closers xs = length (takeWhile (\<lambda>x. x = CHR '']'') xs)"

definition isRun :: "char \<Rightarrow> bool" where
  "isRun c = (c = CHR ''+'' \<or> c = CHR ''-'' \<or> c = CHR ''>'' \<or> c = CHR ''<'')"

definition isInstr :: "char \<Rightarrow> bool" where
  "isInstr c = (isRun c \<or> c = CHR '','' \<or> c = CHR ''.'' \<or> c = CHR ''['' \<or> c = CHR '']'')"

definition runOp :: "char \<Rightarrow> 8 word list" where
  "runOp c =
     (if c = CHR ''+'' then [0x80, 0x3]
      else if c = CHR ''-'' then [0x80, 0x2b]
      else if c = CHR ''>'' then [0x48, 0x83, 0xc3]
      else [0x48, 0x83, 0xeb])"

text \<open>
  \<open>emits la xs C\<close>: the text \<open>xs\<close> is well nested and, when \<open>la\<close> closing
  brackets follow it directly, the code it contributes is \<open>C\<close>. The text is read
  as the two modes read it: maximal runs of \<open>+ - > <\<close>, single \<open>,\<close> and \<open>.\<close>,
  maximal runs of spaces (the interpreter skips them in one turn), other characters
  without meaning, and loops \<open>[ b ]\<close> with their patched displacements
  and, when \<open>k > 0\<close> closing brackets follow the loop's own, the jump over them.
\<close>

inductive emits :: "nat \<Rightarrow> string \<Rightarrow> 8 word list \<Rightarrow> bool" where
  Empty: "emits la [] []"
| Run: "isRun c \<Longrightarrow> r = [] \<or> hd r \<noteq> c \<Longrightarrow> emits la r C \<Longrightarrow>
        emits la (replicate (Suc m) c @ r) (runOp c @ [of_nat (Suc m)] @ C)"
| Read: "emits la r C \<Longrightarrow> emits la (CHR '','' # r) (readSyscall @ C)"
| Write: "emits la r C \<Longrightarrow> emits la (CHR ''.'' # r) (writeSyscall @ C)"
| Spaces: "r = [] \<or> hd r \<noteq> CHR '' '' \<Longrightarrow> emits la r C \<Longrightarrow>
        emits la (replicate (Suc m) (CHR '' '') @ r) C"
| Other: "\<not> isInstr c \<Longrightarrow> c \<noteq> CHR '' '' \<Longrightarrow> emits la r C \<Longrightarrow> emits la (c # r) C"
| Loop: "emits (Suc k) b B \<Longrightarrow> emits la r C \<Longrightarrow> k = (if r = [] then la else 0) \<Longrightarrow>
        emits la (CHR ''['' # b @ CHR '']'' # r)
          ([0x80, 0x3b, 0x0, 0xf, 0x84] @ resolveAddrDiff (of_nat (length B + 9)) @ B @
           [0x80, 0x3b, 0x0, 0xf, 0x85] @ resolveAddrDiff (- of_nat (length B + 9)) @
           (if k > 0 then [0xeb, of_nat (k * 11 - 2)] else []) @ C)"

text \<open>
  What follows a well-nested piece of text inside a program: the closing bracket of
  the loop around it, or the NUL that ends the text; \<open>la\<close> is the number of closing
  brackets that follow directly, and some other character stands after them (the
  look-ahead of the code generator stops there).
\<close>

definition follows :: "nat \<Rightarrow> string \<Rightarrow> bool" where
  "follows la rest =
     (closers rest = la \<and> dropWhile (\<lambda>x. x = CHR '']'') rest \<noteq> [] \<and>
      (hd rest = CHR '']'' \<or> hd rest = NUL))"

text \<open>
  Well-nested texts, by a scan: \<open>nesting d xs\<close> is the depth after \<open>xs\<close> when
  the depth before it is \<open>d\<close>, and \<open>None\<close> when a closing bracket has no partner.
\<close>

fun nesting :: "nat \<Rightarrow> string \<Rightarrow> nat option" where
  "nesting d [] = Some d"
| "nesting d (c # cs) =
     (if c = CHR ''['' then nesting (Suc d) cs
      else if c = CHR '']'' then (case d of 0 \<Rightarrow> None | Suc d' \<Rightarrow> nesting d' cs)
      else nesting d cs)"

definition balanced :: "string \<Rightarrow> bool" where
  "balanced xs = (nesting 0 xs = Some 0)"

text \<open>The length of the longest run of the character \<open>c\<close> in a text.\<close>

fun longestRun :: "char \<Rightarrow> string \<Rightarrow> nat" where
  "longestRun c [] = 0"
| "longestRun c (x # xs) =
     max (length (takeWhile (\<lambda>y. y = c) (x # xs))) (longestRun c xs)"

text \<open>A fixed number of turns of the interpreter, and of instructions of the processor.\<close>

fun bfSteps :: "nat \<Rightarrow> string \<Rightarrow> interp \<Rightarrow> interp status" where
  "bfSteps 0 p c = Running c"
| "bfSteps (Suc n) p c = (case bfStep p c of Running c' \<Rightarrow> bfSteps n p c' | r \<Rightarrow> r)"

fun x86Steps :: "nat \<Rightarrow> 8 word list \<Rightarrow> 64 word \<Rightarrow> 64 word \<Rightarrow> x86 \<Rightarrow> x86 status" where
  "x86Steps 0 code tapeAddr ret s = Running s"
| "x86Steps (Suc n) code tapeAddr ret s =
     (case x86Step code tapeAddr ret s of
        Running s' \<Rightarrow> x86Steps n code tapeAddr ret s'
      | r \<Rightarrow> r)"

text \<open>
  The two modes hold the same data: the same cells, the cursor (\<open>%rbx\<close> is the
  address of the current cell), the same streams; the return address is on top of
  the stack.
\<close>

definition related :: "64 word \<Rightarrow> 64 word \<Rightarrow> interp \<Rightarrow> x86 \<Rightarrow> bool" where
  "related tapeAddr ret c s =
     (cells s = tape c \<and> rbx s = tapeAddr + word_of_int (ptr c) \<and>
      fd0 s = stdin c \<and> fd1 s = stdout c \<and> stack s \<noteq> [] \<and> hd (stack s) = ret)"

text \<open>The bytes \<open>bs\<close> stand in \<open>code\<close> at offset \<open>off\<close>.\<close>

definition codeAt :: "8 word list \<Rightarrow> nat \<Rightarrow> 8 word list \<Rightarrow> bool" where
  "codeAt code off bs = (take (length bs) (drop off code) = bs)"

text \<open>
  The runs that the generated instructions can hold: no run of \<open>></\<close> or \<open><\<close> is
  longer than 127 and no more than twelve closing brackets stand in a row. The
  immediate byte of \<^verbatim>\<open>add/sub $ib, %rbx\<close> and the displacement of the short jump
  are signed bytes on the processor, so these are the bounds under which the code
  does what the interpreter does; they are lower than the 255 that the header
  comment of the source gives as the longest run.
\<close>

definition faithful :: "string \<Rightarrow> bool" where
  "faithful prog =
     (longestRun (CHR ''>'') prog \<le> 127 \<and> longestRun (CHR ''<'') prog \<le> 127 \<and>
      longestRun (CHR '']'') prog \<le> 12)"

text \<open>
  Both modes have gone through a piece of text that ends at position \<open>tpos\<close> and
  whose code ends at offset \<open>cpos\<close>: the interpreter stands behind the text with its
  loop stack as before, the processor behind the code, or, when the piece ended with a loop, already
  behind the \<open>la\<close> closing brackets that follow (the current cell is then 0).
\<close>

definition segDone ::
  "string \<Rightarrow> 8 word list \<Rightarrow> 64 word \<Rightarrow> 64 word \<Rightarrow> nat \<Rightarrow> interp \<Rightarrow> x86 \<Rightarrow> nat \<Rightarrow> nat \<Rightarrow> bool" where
  "segDone prog code tapeAddr ret la c s tpos cpos =
     (\<exists>m c' j s'. bfSteps m prog c = Running c' \<and>
        x86Steps j code tapeAddr ret s = Running s' \<and>
        program c' = tpos \<and> nskip c' = 0 \<and> loops c' = loops c \<and>
        related tapeAddr ret c' s' \<and>
        (rip s' = cpos \<or> (0 < la \<and> cell c' = 0 \<and> rip s' = cpos + 11 * la - 2)))"

text \<open>The interpreter, started in \<open>c\<close>, returns in \<open>cf\<close> without having read at end of input.\<close>

definition completes :: "string \<Rightarrow> interp \<Rightarrow> interp \<Rightarrow> bool" where
  "completes prog c cf =
     ((\<exists>n. bfInterpret n prog c = Some (Returned cf)) \<and> \<not> stdin_eof cf)"

text \<open>
  The body of the interpreter's \<^verbatim>\<open>switch\<close> for a character \<open>ch\<close> that is
  followed by \<open>k\<close> more of its kind: \<open>bfStep\<close> is \<open>bfExec\<close> at the character and
  the run found in the text.
\<close>

definition bfExec :: "char \<Rightarrow> nat \<Rightarrow> interp \<Rightarrow> interp status" where
  "bfExec ch k c =
    (let c1 = c\<lparr>program := program c + 1\<rparr>;
         n = 1 + k;
         c2 = c1\<lparr>program := program c1 + k\<rparr>
     in
     if ch = CHR ''<'' then
       (if nskip c = 0 then Running (c2\<lparr>ptr := ptr c - int n\<rparr>) else Running c2)
     else if ch = CHR ''>'' then
       (if nskip c = 0 then Running (c2\<lparr>ptr := ptr c + int n\<rparr>) else Running c2)
     else if ch = CHR ''+'' then
       (if nskip c = 0 then
          (if inRange (ptr c) then Running (setCell (cell c + of_nat n) c2)
           else Failed TapeOutOfRange)
        else Running c2)
     else if ch = CHR ''-'' then
       (if nskip c = 0 then
          (if inRange (ptr c) then Running (setCell (cell c - of_nat n) c2)
           else Failed TapeOutOfRange)
        else Running c2)
     else if ch = CHR '','' then
       (if nskip c = 0 then
          (if inRange (ptr c) then
             (let (r, rest) = getchar (stdin c) in
              Running (setCell (word_of_int r)
                (c1\<lparr>stdin := rest, stdin_eof := (stdin_eof c \<or> r = EOF)\<rparr>)))
           else Failed TapeOutOfRange)
        else Running c1)
     else if ch = CHR ''.'' then
       (if nskip c = 0 then
          (if inRange (ptr c) then Running (c1\<lparr>stdout := stdout c @ [cell c]\<rparr>)
           else Failed TapeOutOfRange)
        else Running c1)
     else if ch = CHR ''['' then
       (if length (loops c) = MAX_NESTING then Failed Terminate
        else if \<not> inRange (ptr c) then Failed TapeOutOfRange
        else Running (c1\<lparr>loops := program c1 # loops c,
                         nskip := (if cell c = 0 then nskip c + 1 else nskip c)\<rparr>))
     else if ch = CHR '']'' then
       (if loops c = [] then Failed Terminate
        else if \<not> inRange (ptr c) then Failed TapeOutOfRange
        else Running
          ((if cell c \<noteq> 0 then c1\<lparr>program := hd (loops c)\<rparr>
            else c1\<lparr>loops := tl (loops c)\<rparr>)
           \<lparr>nskip := (if nskip c \<noteq> 0 then nskip c - 1 else nskip c)\<rparr>))
     else if ch = CHR '' '' then Running c2
     else if ch = NUL then Returned c1
     else Running c1)"

section \<open>Properties of the interpreter\<close>

subsection \<open>Reading at end of input\<close>

text \<open>
  C10. When \<open>,\<close> is executed outside a suppressed body and the input stream is
  exhausted, \<^verbatim>\<open>getchar\<close> returns \<open>EOF = -1\<close>; the interpreter stores the byte 255
  in the current cell, moves on to the next character and keeps running. Nothing
  else changes but the end-of-file indicator of the stream.
\<close>

theorem C10_comma_at_eof:
  assumes "charAt p (program c) = CHR '',''" and "nskip c = 0"
    and "inRange (ptr c)" and "stdin c = []"
  shows "fst (getchar (stdin c)) = - 1 \<and>
     bfStep p c =
       Running (c\<lparr>program := program c + 1,
                  tape := (tape c)(nat (ptr c) := 255),
                  stdin_eof := True\<rparr>)"
proof -
  have m: "(- 1 :: 8 word) = 255" by simp
  show ?thesis
    using assms
    by (cases c) (simp add: bfStep_def getchar_def EOF_def setCell_def Let_def m)
qed

theorem C10_comma_at_eof_witness:
  "charAt '','' (program (initInterp [])) = CHR '','' \<and> nskip (initInterp []) = 0 \<and>
   inRange (ptr (initInterp [])) \<and> stdin (initInterp []) = [] \<and>
   bfStep '','' (initInterp []) =
     Running ((initInterp [])\<lparr>program := 1, tape := (\<lambda>_. 0)(0 := 255), stdin_eof := True\<rparr>)"
  using C10_comma_at_eof [of "'',''" "initInterp []"]
  by (simp add: initInterp_def charAt_def inRange_def TAPE_SIZE_def)

subsection \<open>The text ends at its first NUL\<close>

lemma charAt_text0:
  assumes "i \<le> length (text0 p)"
  shows "charAt (text0 p) i = charAt p i"
proof (cases "i < length (text0 p)")
  case True
  then show ?thesis
    unfolding text0_def
    by (simp add: charAt_def takeWhile_nth) (meson length_takeWhile_le less_le_trans)
next
  case False
  with assms have i: "i = length (text0 p)" by simp
  show ?thesis
  proof (cases "i < length p")
    case True
    then have "\<not> (p ! i \<noteq> NUL)"
      unfolding i text0_def by (rule nth_length_takeWhile)
    then show ?thesis using True i by (simp add: charAt_def)
  next
    case False
    then show ?thesis using i by (simp add: charAt_def)
  qed
qed

lemma runLen_text0:
  assumes "i \<le> length (text0 p)" and "ch \<noteq> NUL"
  shows "runLen (text0 p) ch i = runLen p ch i"
proof -
  have p: "p = text0 p @ dropWhile (\<lambda>x. x \<noteq> NUL) p"
    by (simp add: text0_def)
  have d: "drop i p = drop i (text0 p) @ dropWhile (\<lambda>x. x \<noteq> NUL) p"
    using assms(1) by (subst p) simp
  have "takeWhile (\<lambda>x. x = ch) (drop i p) = takeWhile (\<lambda>x. x = ch) (drop i (text0 p))"
  proof (cases "dropWhile (\<lambda>x. x \<noteq> NUL) p")
    case Nil
    show ?thesis by (simp only: d Nil append_Nil2)
  next
    case (Cons y ys)
    then have "y = NUL"
      using hd_dropWhile [of "\<lambda>x. x \<noteq> NUL" p] by auto
    then show ?thesis using d Cons assms(2) by (simp add: takeWhile_tail)
  qed
  then show ?thesis by (simp add: runLen_def)
qed

lemma runLen_le: "i + runLen p ch i \<le> max i (length p)"
  unfolding runLen_def
  using length_takeWhile_le [of "\<lambda>x. x = ch" "drop i p"] by simp

lemma charAt_NUL_iff:
  assumes i: "i \<le> length (text0 p)"
  shows "charAt p i = NUL \<longleftrightarrow> i = length (text0 p)"
proof -
  have "charAt p i \<noteq> NUL" if l: "i < length (text0 p)"
  proof -
    from l have "text0 p ! i \<in> set (text0 p)" by simp
    then have "text0 p ! i \<noteq> NUL"
      unfolding text0_def by (auto dest: set_takeWhileD)
    moreover have "charAt (text0 p) i = text0 p ! i"
      using l by (simp add: charAt_def)
    ultimately show ?thesis using charAt_text0 [of i p] l by simp
  qed
  moreover have "charAt p (length (text0 p)) = NUL"
    using charAt_text0 [of "length (text0 p)" p] by (simp add: charAt_def)
  ultimately show ?thesis using i by (cases "i = length (text0 p)") auto
qed

lemma bfStep_text0:
  assumes "withinText p c"
  shows "bfStep (text0 p) c = bfStep p c"
proof -
  let ?z = "length (text0 p)"
  have pc: "program c \<le> ?z" using assms by (simp add: withinText_def)
  have ch: "charAt (text0 p) (program c) = charAt p (program c)"
    using pc by (rule charAt_text0)
  show ?thesis
  proof (cases "charAt p (program c) = NUL")
    case True
    then show ?thesis using ch by (simp add: bfStep_def Let_def NUL_def)
  next
    case False
    then have "program c \<noteq> ?z" using charAt_NUL_iff [OF pc] by simp
    then have "Suc (program c) \<le> ?z" using pc by simp
    then have "runLen (text0 p) x (Suc (program c)) = runLen p x (Suc (program c))"
      if "x \<noteq> NUL" for x
      using that by (rule runLen_text0)
    then show ?thesis using ch by (simp add: bfStep_def Let_def NUL_def)
  qed
qed

lemma bfStep_withinText:
  assumes "withinText p c" and "bfStep p c = Running c'"
  shows "withinText p c'"
proof -
  let ?z = "length (text0 p)"
  have pc: "program c \<le> ?z" and lp: "list_all (\<lambda>e. e \<le> ?z) (loops c)"
    using assms by (simp_all add: withinText_def)
  have nn: "charAt p (program c) \<noteq> NUL"
    using assms(2) by (auto simp: bfStep_def Let_def NUL_def split: if_splits)
  then have "program c \<noteq> ?z" using charAt_NUL_iff [OF pc] by simp
  then have s: "Suc (program c) \<le> ?z" using pc by simp
  have r: "Suc (program c) + runLen p ch (Suc (program c)) \<le> ?z" if "ch \<noteq> NUL" for ch
    using runLen_le [of "Suc (program c)" "text0 p" ch] runLen_text0 [OF s that] s by simp
  have h: "loops c \<noteq> [] \<Longrightarrow> hd (loops c) \<le> ?z"
    using lp by (cases "loops c") simp_all
  have t: "list_all (\<lambda>e. e \<le> ?z) (tl (loops c))"
    using lp by (cases "loops c") simp_all
  show ?thesis
    using assms(2) s r [OF nn] lp h t nn
    by (auto simp: bfStep_def Let_def withinText_def setCell_def NUL_def
        split: if_splits prod.splits)
qed

lemma bfInterpret_text0:
  "withinText p c \<Longrightarrow> bfInterpret k (text0 p) c = bfInterpret k p c"
proof (induction k arbitrary: c)
  case 0
  then show ?case by simp
next
  case (Suc k)
  show ?case
  proof (cases "bfStep p c")
    case (Running c')
    then have "withinText p c'" using Suc.prems bfStep_withinText by blast
    then show ?thesis using Running Suc.IH bfStep_text0 [OF Suc.prems] by simp
  qed (simp_all add: bfStep_text0 [OF Suc.prems])
qed

lemma bfStep_NUL:
  assumes "charAt p (program c) = NUL"
  shows "bfStep p c = Returned (c\<lparr>program := program c + 1\<rparr>)"
  using assms by (simp add: bfStep_def Let_def NUL_def)

lemma bfStep_Returned:
  assumes "bfStep p c = Returned cf"
  shows "charAt p (program c) = NUL \<and> cf = c\<lparr>program := program c + 1\<rparr>"
  using assms by (auto simp: bfStep_def Let_def NUL_def split: if_splits prod.splits)

lemma bfInterpret_numeral:
  "bfInterpret (numeral n) p c =
     (case bfStep p c of Running c' \<Rightarrow> bfInterpret (pred_numeral n) p c' | r \<Rightarrow> Some r)"
  by (simp add: numeral_eq_Suc)

lemma returns_at_first_NUL:
  "withinText p c \<Longrightarrow> bfInterpret k p c = Some (Returned cf) \<Longrightarrow>
   program cf = Suc (length (text0 p))"
proof (induction k arbitrary: c)
  case 0
  then show ?case by simp
next
  case (Suc k)
  show ?case
  proof (cases "bfStep p c")
    case (Running c')
    then have "withinText p c'" using Suc.prems(1) bfStep_withinText by blast
    moreover have "bfInterpret k p c' = Some (Returned cf)" using Suc.prems(2) Running by simp
    ultimately show ?thesis by (rule Suc.IH)
  next
    case (Returned c')
    then have cf: "cf = c'" using Suc.prems(2) by simp
    have pc: "program c \<le> length (text0 p)" using Suc.prems(1) by (simp add: withinText_def)
    from bfStep_Returned [OF Returned]
    have "charAt p (program c) = NUL" and c': "c' = c\<lparr>program := program c + 1\<rparr>"
      by simp_all
    then have "program c = length (text0 p)" using charAt_NUL_iff [OF pc] by simp
    then show ?thesis using cf c' by simp
  next
    case (Failed f)
    then show ?thesis using Suc.prems(2) by simp
  qed
qed

text \<open>
  C9. A NUL is the end of the program. A run that stands at a NUL returns normally
  there, whatever fuel it has left; a run on a text is, for every amount of fuel and
  every input, the run on the text cut at its first NUL (\<open>text0\<close>), so that nothing
  after an embedded NUL is ever looked at; and a run that returns has returned at the
  first NUL of the text (the position after it is \<open>length (text0 p) + 1\<close>).
\<close>

theorem C9_nul_ends_program:
  "(charAt p (program c) = NUL \<longrightarrow>
      bfInterpret (Suc k) p c = Some (Returned (c\<lparr>program := program c + 1\<rparr>))) \<and>
   bfRunDefault n p inp = bfRunDefault n (text0 p) inp \<and>
   (bfRunDefault n p inp = Some (Returned cf) \<longrightarrow> program cf = Suc (length (text0 p)))"
proof -
  have w: "withinText p (initInterp inp)" by (simp add: withinText_def initInterp_def)
  have "charAt p (program c) = NUL \<longrightarrow>
      bfInterpret (Suc k) p c = Some (Returned (c\<lparr>program := program c + 1\<rparr>))"
    using bfStep_NUL [of p c] by simp
  moreover have "bfRunDefault n p inp = bfRunDefault n (text0 p) inp"
    using bfInterpret_text0 [OF w, of n] by (simp add: bfRunDefault_def)
  moreover have "bfRunDefault n p inp = Some (Returned cf) \<longrightarrow>
      program cf = Suc (length (text0 p))"
    using returns_at_first_NUL [OF w, of n cf] by (simp add: bfRunDefault_def)
  ultimately show ?thesis by blast
qed

theorem C9_nul_ends_program_witness:
  "charAt (''+'' @ [NUL] @ ''+.'') (program ((initInterp [])\<lparr>program := 1\<rparr>)) = NUL \<and>
   bfInterpret (Suc 0) (''+'' @ [NUL] @ ''+.'') ((initInterp [])\<lparr>program := 1\<rparr>) =
     Some (Returned ((initInterp [])\<lparr>program := 2\<rparr>)) \<and>
   bfRunDefault 5 (''+'' @ [NUL] @ ''+.'') [] =
     Some (Returned \<lparr>program = 2, tape = (\<lambda>_. 0)(0 := 1), ptr = 0, loops = [], nskip = 0,
       stdin = [], stdin_eof = False, stdout = []\<rparr>) \<and>
   bfRunDefault 5 ''+'' [] =
     Some (Returned \<lparr>program = 2, tape = (\<lambda>_. 0)(0 := 1), ptr = 0, loops = [], nskip = 0,
       stdin = [], stdin_eof = False, stdout = []\<rparr>) \<and>
   Suc (length (text0 (''+'' @ [NUL] @ ''+.''))) = 2"
proof -
  have r: "bfRunDefault 5 (''+'' @ [NUL] @ ''+.'') [] =
     Some (Returned \<lparr>program = 2, tape = (\<lambda>_. 0)(0 := 1), ptr = 0, loops = [], nskip = 0,
       stdin = [], stdin_eof = False, stdout = []\<rparr>)"
    by (simp add: bfRunDefault_def initInterp_def bfStep_def Let_def charAt_def runLen_def
        cell_def setCell_def inRange_def TAPE_SIZE_def NUL_def bfInterpret_numeral)
  have t: "text0 (''+'' @ [NUL] @ ''+.'') = ''+''" by (simp add: text0_def NUL_def)
  have n: "charAt (''+'' @ [NUL] @ ''+.'') (program ((initInterp [])\<lparr>program := 1\<rparr>)) = NUL"
    by (simp add: charAt_def)
  from C9_nul_ends_program [of "''+'' @ [NUL] @ ''+.''" "(initInterp [])\<lparr>program := 1\<rparr>" 0 5 "[]"
      "\<lparr>program = 2, tape = (\<lambda>_. 0)(0 := 1), ptr = 0, loops = [], nskip = 0,
       stdin = [], stdin_eof = False, stdout = []\<rparr>"]
  show ?thesis unfolding t using r n by simp
qed

subsection \<open>Suppressed loop bodies\<close>

text \<open>
  C7. While the suppression depth \<open>nskip\<close> is positive: a turn on one of
  \<open>+ - < > , .\<close> only advances the program pointer (tape, cursor, both streams, the
  loop stack and the depth stay as they are); \<open>[\<close> still pushes the position after
  the bracket; \<open>]\<close> still pops or jumps back and lowers the depth by one; and
  whatever the character, a turn that goes on or returns leaves tape, cursor and
  streams unchanged.
\<close>

theorem C7_suppressed_frame:
  assumes "0 < nskip c"
  shows
    "(charAt p (program c) \<in>
        {CHR ''+'', CHR ''-'', CHR ''<'', CHR ''>'', CHR '','', CHR ''.''} \<longrightarrow>
      (\<exists>c'. bfStep p c = Running c' \<and> tape c' = tape c \<and> ptr c' = ptr c \<and>
         stdin c' = stdin c \<and> stdin_eof c' = stdin_eof c \<and> stdout c' = stdout c \<and>
         loops c' = loops c \<and> nskip c' = nskip c))
     \<and> (charAt p (program c) = CHR ''['' \<and> length (loops c) \<noteq> MAX_NESTING \<and>
        inRange (ptr c) \<longrightarrow>
      (\<exists>c'. bfStep p c = Running c' \<and> loops c' = (program c + 1) # loops c \<and>
         nskip c' = (if cell c = 0 then nskip c + 1 else nskip c) \<and>
         program c' = program c + 1))
     \<and> (charAt p (program c) = CHR '']'' \<and> loops c \<noteq> [] \<and> inRange (ptr c) \<longrightarrow>
      (\<exists>c'. bfStep p c = Running c' \<and> nskip c' = nskip c - 1 \<and>
         loops c' = (if cell c = 0 then tl (loops c) else loops c) \<and>
         program c' = (if cell c = 0 then program c + 1 else hd (loops c))))
     \<and> (\<forall>c'. bfStep p c = Running c' \<or> bfStep p c = Returned c' \<longrightarrow>
         tape c' = tape c \<and> ptr c' = ptr c \<and>
         stdin c' = stdin c \<and> stdin_eof c' = stdin_eof c \<and> stdout c' = stdout c)"
  using assms
  by (auto simp: bfStep_def Let_def setCell_def NUL_def split: if_splits)

theorem C7_suppressed_frame_witness:
  "0 < nskip (suppressedAt 0) \<and>
   bfStep '',[]'' (suppressedAt 0) = Running ((suppressedAt 0)\<lparr>program := 1\<rparr>) \<and>
   bfStep '',[]'' (suppressedAt 1) =
     Running ((suppressedAt 1)\<lparr>program := 2, loops := [2, 1], nskip := 2\<rparr>) \<and>
   bfStep '',[]'' (suppressedAt 2) =
     Running ((suppressedAt 2)\<lparr>program := 3, loops := [], nskip := 0\<rparr>)"
  using C7_suppressed_frame [of "suppressedAt 0" "'',[]''"]
    C7_suppressed_frame [of "suppressedAt 1" "'',[]''"]
    C7_suppressed_frame [of "suppressedAt 2" "'',[]''"]
  by (simp add: suppressedAt_def charAt_def bfStep_def Let_def inRange_def TAPE_SIZE_def
      MAX_NESTING_def cell_def NUL_def)


section \<open>Properties of the code generator\<close>

subsection \<open>Runs of one character\<close>

lemma takeWhile_run:
  "rest = [] \<or> hd rest \<noteq> c \<Longrightarrow>
   takeWhile (\<lambda>x. x = c) (replicate m c @ rest) = replicate m c"
  by (cases rest) (auto simp: takeWhile_append)

lemma dropWhile_run:
  "rest = [] \<or> hd rest \<noteq> c \<Longrightarrow>
   dropWhile (\<lambda>x. x = c) (replicate m c @ rest) = rest"
  by (cases rest) (auto simp: dropWhile_append)

lemma codegen_run:
  assumes "rest \<noteq> []" and "hd rest \<noteq> c"
  shows "codegen (replicate (Suc m) c @ rest) st =
     (if c = CHR ''+'' then codegen rest (appendBytecode [0x80, 0x3, of_nat (Suc m)] st)
      else if c = CHR ''-'' then codegen rest (appendBytecode [0x80, 0x2b, of_nat (Suc m)] st)
      else if c = CHR ''>'' then
        codegen rest (appendBytecode [0x48, 0x83, 0xc3, of_nat (Suc m)] st)
      else if c = CHR ''<'' then
        codegen rest (appendBytecode [0x48, 0x83, 0xeb, of_nat (Suc m)] st)
      else codegen (c # replicate m c @ rest) st)"
proof -
  have t: "takeWhile (\<lambda>x. x = c) (replicate m c @ rest) = replicate m c"
    using assms(2) by (intro takeWhile_run) simp
  have d: "dropWhile (\<lambda>x. x = c) (replicate m c @ rest) = rest"
    using assms(2) by (intro dropWhile_run) simp
  have e: "replicate (Suc m) c @ rest = c # (replicate m c @ rest)" by simp
  have u: "codegen (c # replicate m c @ rest) st =
      (if c = CHR ''+'' then codegen rest (appendBytecode [0x80, 0x3, of_nat (Suc m)] st)
       else if c = CHR ''-'' then codegen rest (appendBytecode [0x80, 0x2b, of_nat (Suc m)] st)
       else if c = CHR ''>'' then
         codegen rest (appendBytecode [0x48, 0x83, 0xc3, of_nat (Suc m)] st)
       else codegen rest (appendBytecode [0x48, 0x83, 0xeb, of_nat (Suc m)] st))"
    if "c = CHR ''+'' \<or> c = CHR ''-'' \<or> c = CHR ''>'' \<or> c = CHR ''<''"
    apply (simp only: codegen.simps(2) Let_def t d length_replicate)
    using that assms(1) apply (auto simp del: codegen.simps of_nat_Suc)
    done
  show ?thesis
  proof (cases "c = CHR ''+'' \<or> c = CHR ''-'' \<or> c = CHR ''>'' \<or> c = CHR ''<''")
    case True
    show ?thesis unfolding e u [OF True] using True by auto
  next
    case False
    then show ?thesis unfolding e by (simp del: codegen.simps)
  qed
qed

lemma codegen_run_end:
  assumes "c = CHR ''+'' \<or> c = CHR ''-'' \<or> c = CHR ''>'' \<or> c = CHR ''<''"
  shows "codegen (replicate (Suc m) c) st = Inl ReadPastEnd"
proof -
  have d: "dropWhile (\<lambda>x. x = c) (replicate m c) = []" by simp
  have e: "replicate (Suc m) c = c # replicate m c" by simp
  show ?thesis
    unfolding e using d assms by (auto simp: Let_def simp del: of_nat_Suc)
qed




subsection \<open>A closing bracket without an opening one\<close>

text \<open>
  C3. The interpreter reaches \<^verbatim>\<open>std::terminate()\<close> on the text \<open>]\<close>. The code
  generator has no such check: with an empty \<open>jmpLocIndex\<close> it calls \<^verbatim>\<open>back()\<close>
  on the empty vector, whatever the rest of the text and the code so far.
\<close>

theorem C3_unmatched_close:
  "bfRunDefault 1 '']'' inp = Some (Failed Terminate) \<and>
   bfJITCompile '']'' ptrAddr = Inl BackOfEmptyVector \<and>
   codegen (CHR '']'' # cs) \<lparr>machineCode = mc, jmpLocIndex = []\<rparr> = Inl BackOfEmptyVector"
  by (simp add: bfRunDefault_def initInterp_def bfStep_def charAt_def Let_def
      bfJITCompile_def closeLoop_def)

subsection \<open>The size of the executable region\<close>

lemma codegen_commas:
  "codegen (replicate n (CHR '','') @ rest) st =
   codegen rest (st\<lparr>machineCode := machineCode st @ concat (replicate n readSyscall)\<rparr>)"
proof (induction n arbitrary: st)
  case 0
  then show ?case by simp
next
  case (Suc n)
  show ?case by (simp add: Suc appendBytecode_def)
qed

lemma length_concat_replicate: "length (concat (replicate n xs)) = n * length xs"
  by (induction n) simp_all

text \<open>
  C4. The length asked of \<^verbatim>\<open>mmap\<close> is the number of pages, not of bytes. For the
  text of 205 commas the code has 4113 bytes; with pages of 4096 bytes the request is
  for 2 bytes, the mapping has one page, and the copy loop stores past its end. When
  the mapping fails, the function leaves with \<^verbatim>\<open>exit(1)\<close>.
\<close>

theorem C4_region_too_small:
  "(\<exists>mc. bfJITCompile (replicate 205 (CHR '','')) a = Inr mc \<and> length mc = 4113 \<and>
      mmapLength 4096 (length mc) = 2 \<and> kernelMmap 4096 2 = Some 4096 \<and>
      setupExecutableMem (kernelMmap 4096) 4096 mc = Crashed OutsideMapping) \<and>
   setupExecutableMem (\<lambda>_. None) pageSize code = Exit 1"
  using codegen_commas [of 205 "[]" "\<lparr>machineCode = prologue a, jmpLocIndex = []\<rparr>"]
  by (simp add: bfJITCompile_def length_concat_replicate prologue_def resolvePtrAddr_def
      epilogue_def readSyscall_def mmapLength_def kernelMmap_def pageRound_def
      setupExecutableMem_def)


subsection \<open>The jump over closing brackets\<close>

text \<open>
  C6. In \<open>thirteen\<close> the first \<open>]\<close> is followed by twelve more; the text is
  followed by the NUL that ends it (without a character after the last \<open>]\<close> the
  look-ahead reads past the end of the text). The generator
  emits \<^verbatim>\<open>eb 82\<close> at offset 139: the count \<open>12 * 11 - 2 = 130\<close> as one byte, which a
  short jump reads as \<open>-126\<close>. The code of the twelve brackets ends at offset 271,
  where the epilogue starts, and the jump, taken at offset 141, goes to offset 15.
\<close>

theorem C6_thirteen_closers:
  "\<exists>code. bfJITCompile (thirteen @ [NUL]) a = Inr code \<and> length code = 274 \<and>
     take 2 (drop 139 code) = [0xeb, 0x82] \<and> drop 271 code = epilogue \<and>
     decode (drop 139 code) = Some (JmpShort 0x82, 2) \<and>
     141 + sint (0x82 :: 8 word) = 15"
  by (simp add: thirteen_def NUL_def bfJITCompile_def prologue_def epilogue_def resolvePtrAddr_def
      closeLoop_def openLoop_def skipClosers_def appendBytecode_def resolveAddrDiff_def
      decode_def Let_def)

section \<open>The layout of the generated code\<close>

lemma length_resolveAddrDiff [simp]: "length (resolveAddrDiff d) = 4"
  by (simp add: resolveAddrDiff_def)

lemma length_resolvePtrAddr [simp]: "length (resolvePtrAddr d) = 8"
  by (simp add: resolvePtrAddr_def)

lemma emits_hd:
  assumes "emits la r C" and "r \<noteq> []"
  shows "hd r \<noteq> CHR '']''"
  using assms
  by (cases rule: emits.cases) (auto simp: isRun_def isInstr_def)

lemma closers_emits_append:
  assumes "emits la r C" and "r \<noteq> []"
  shows "closers (r @ rest) = 0"
  using emits_hd [OF assms] assms(2) by (cases r) (auto simp: closers_def)

lemma take_length_append: "n = length p \<Longrightarrow> take n (p @ q) = p"
  by simp

lemma drop_length_append: "n = length p \<Longrightarrow> drop n (p @ q) = q"
  by simp

lemma closeLoop_patch:
  assumes mc: "machineCode st = mc @ [0x80, 0x3b, 0x0, 0xf, 0x84, 0x0, 0x0, 0x0, 0x0] @ B"
    and stk: "jmpLocIndex st = (length mc + 9) # stk"
  shows "closeLoop st =
   Inr \<lparr>machineCode =
          mc @ [0x80, 0x3b, 0x0, 0xf, 0x84] @ resolveAddrDiff (of_nat (length B + 9)) @ B @
          [0x80, 0x3b, 0x0, 0xf, 0x85] @ resolveAddrDiff (- of_nat (length B + 9)),
        jmpLocIndex = stk\<rparr>"
proof -
  let ?O5 = "[0x80, 0x3b, 0x0, 0xf, 0x84] :: 8 word list"
  let ?X5 = "[0x80, 0x3b, 0x0, 0xf, 0x85] :: 8 word list"
  let ?Z = "[0x0, 0x0, 0x0, 0x0] :: 8 word list"
  let ?mc1 = "machineCode st @ [0x80, 0x3b, 0x0, 0xf, 0x85, 0x0, 0x0, 0x0, 0x0]"
  let ?b = "resolveAddrDiff (of_nat (length mc + 9) - of_nat (length ?mc1))"
  let ?f = "resolveAddrDiff (of_nat (length ?mc1) - of_nat (length mc + 9))"
  have l1: "length ?mc1 = length mc + 9 + (length B + 9)" by (simp add: mc)
  have e1: "(of_nat (x + y) :: 32 word) - of_nat x = of_nat y" for x y
    by simp
  have e2: "(of_nat x :: 32 word) - of_nat (x + y) = - of_nat y" for x y
    by simp
  have b: "?b = resolveAddrDiff (- of_nat (length B + 9))"
    unfolding l1 e2 ..
  have f: "?f = resolveAddrDiff (of_nat (length B + 9))"
    unfolding l1 e1 ..
  have s1: "?mc1 = (mc @ ?O5 @ ?Z @ B @ ?X5) @ ?Z" by (simp add: mc)
  have t1: "take (length ?mc1 - 4) ?mc1 = mc @ ?O5 @ ?Z @ B @ ?X5"
    by (subst (2) s1, rule take_length_append) (simp add: mc)
  let ?mc2 = "(mc @ ?O5 @ ?Z @ B @ ?X5) @ ?b"
  have s2: "?mc2 = (mc @ ?O5) @ (?Z @ B @ ?X5 @ ?b)" by simp
  have s3: "?mc2 = (mc @ ?O5 @ ?Z) @ (B @ ?X5 @ ?b)" by simp
  have t2: "take (length mc + 9 - 4) ?mc2 = mc @ ?O5"
    by (subst s2, rule take_length_append) simp
  have t3: "drop (length mc + 9) ?mc2 = B @ ?X5 @ ?b"
    by (subst s3, rule drop_length_append) simp
  have "closeLoop st =
      Inr \<lparr>machineCode = take (length mc + 9 - 4) ?mc2 @ ?f @ drop (length mc + 9) ?mc2,
           jmpLocIndex = stk\<rparr>"
    unfolding closeLoop_def Let_def stk list.case t1 ..
  then show ?thesis
    unfolding t2 t3 b f by simp
qed

lemma follows_nonempty: "follows la rest \<Longrightarrow> rest \<noteq> []"
  by (auto simp: follows_def)

lemma emits_not_closers:
  assumes "emits la r C" and "follows la rest"
  shows "dropWhile (\<lambda>x. x = CHR '']'') (r @ rest) \<noteq> []"
proof (cases "r = []")
  case True
  then show ?thesis using assms(2) by (simp add: follows_def)
next
  case False
  then show ?thesis using emits_hd [OF assms(1) False] by (cases r) auto
qed

lemma codegen_close:
  assumes "dropWhile (\<lambda>x. x = CHR '']'') cs \<noteq> []" and "closeLoop st = Inr st'"
  shows "codegen (CHR '']'' # cs) st = codegen cs (skipClosers (closers cs) st')"
  using assms by (auto simp: closers_def)

lemma codegen_emits:
  assumes "emits la xs C" and "follows la rest"
  shows "codegen (xs @ rest) st = codegen rest (st\<lparr>machineCode := machineCode st @ C\<rparr>)"
  using assms
proof (induction arbitrary: st rest rule: emits.induct)
  case (Empty la)
  then show ?case by simp
next
  case (Run c r la C m)
  have "r @ rest \<noteq> []" using follows_nonempty [OF Run.prems] by simp
  moreover have "hd (r @ rest) \<noteq> c"
    using Run.hyps(1,2) Run.prems by (cases r) (auto simp: follows_def isRun_def NUL_def)
  ultimately have "codegen (replicate (Suc m) c @ r @ rest) st =
      codegen (r @ rest) (appendBytecode (runOp c @ [of_nat (Suc m)]) st)"
    using Run.hyps(1) by (subst codegen_run) (auto simp: isRun_def runOp_def)
  then show ?case
    using Run.IH [OF Run.prems] by (simp add: appendBytecode_def del: replicate_Suc of_nat_Suc)
next
  case (Read la r C)
  then show ?case by (simp add: appendBytecode_def)
next
  case (Write la r C)
  then show ?case by (simp add: appendBytecode_def)
next
  case (Spaces r la C m)
  have "codegen (replicate n (CHR '' '') @ ys) st = codegen ys st" for n ys
    by (induction n) simp_all
  then show ?case
    using Spaces.IH [OF Spaces.prems] by (simp del: replicate_Suc)
next
  case (Other c la r C)
  then show ?case by (simp add: isInstr_def isRun_def)
next
  case (Loop k b B la r C)
  have k: "closers (r @ rest) = k"
  proof (cases "r = []")
    case True
    then show ?thesis using Loop.hyps(3) Loop.prems by (simp add: follows_def)
  next
    case False
    then show ?thesis using closers_emits_append [OF Loop.hyps(2)] Loop.hyps(3) by simp
  qed
  have nc: "dropWhile (\<lambda>x. x = CHR '']'') (r @ rest) \<noteq> []"
    by (rule emits_not_closers [OF Loop.hyps(2) Loop.prems])
  have f: "follows (Suc k) (CHR '']'' # r @ rest)"
    using k nc by (simp add: follows_def closers_def)
  let ?st1 = "(openLoop st)\<lparr>machineCode := machineCode (openLoop st) @ B\<rparr>"
  let ?st2 = "\<lparr>machineCode =
          machineCode st @ [0x80, 0x3b, 0x0, 0xf, 0x84] @
          resolveAddrDiff (of_nat (length B + 9)) @ B @
          [0x80, 0x3b, 0x0, 0xf, 0x85] @ resolveAddrDiff (- of_nat (length B + 9)),
        jmpLocIndex = jmpLocIndex st\<rparr>"
  have mc1: "machineCode ?st1 =
      machineCode st @ [0x80, 0x3b, 0x0, 0xf, 0x84, 0x0, 0x0, 0x0, 0x0] @ B"
    by (simp add: openLoop_def appendBytecode_def Let_def)
  have stk1: "jmpLocIndex ?st1 = (length (machineCode st) + 9) # jmpLocIndex st"
    by (simp add: openLoop_def appendBytecode_def Let_def)
  have "codegen ((CHR ''['' # b @ CHR '']'' # r) @ rest) st =
      codegen (b @ CHR '']'' # r @ rest) (openLoop st)"
    by simp
  also have "\<dots> = codegen (CHR '']'' # r @ rest) ?st1"
    by (rule Loop.IH(1) [OF f])
  also have "\<dots> = codegen (r @ rest) (skipClosers k ?st2)"
    unfolding codegen_close [OF nc closeLoop_patch [OF mc1 stk1]] k ..
  also have "\<dots> = codegen rest
      ((skipClosers k ?st2)\<lparr>machineCode := machineCode (skipClosers k ?st2) @ C\<rparr>)"
    by (rule Loop.IH(2) [OF Loop.prems])
  also have "(skipClosers k ?st2)\<lparr>machineCode := machineCode (skipClosers k ?st2) @ C\<rparr> =
      st\<lparr>machineCode := machineCode st @
          [0x80, 0x3b, 0x0, 0xf, 0x84] @ resolveAddrDiff (of_nat (length B + 9)) @ B @
          [0x80, 0x3b, 0x0, 0xf, 0x85] @ resolveAddrDiff (- of_nat (length B + 9)) @
          (if k > 0 then [0xeb, of_nat (k * 11 - 2)] else []) @ C\<rparr>"
    by (cases st) (simp add: skipClosers_def appendBytecode_def)
  finally show ?case .
qed

subsection \<open>Well-nested texts have a layout\<close>

lemma nesting_append:
  "nesting d (xs @ ys) = (case nesting d xs of None \<Rightarrow> None | Some e \<Rightarrow> nesting e ys)"
  by (induction d xs rule: nesting.induct) (auto split: nat.splits)

lemma nesting_shift:
  "nesting d xs = Some e \<Longrightarrow> nesting (d + k) xs = Some (e + k)"
  by (induction d xs rule: nesting.induct) (auto split: nat.splits if_splits)

lemma nesting_replicate:
  "c \<noteq> CHR ''['' \<Longrightarrow> c \<noteq> CHR '']'' \<Longrightarrow> nesting d (replicate n c @ xs) = nesting d xs"
  by (induction n) simp_all

lemma nesting_split:
  "nesting (Suc d) r = Some e \<Longrightarrow> e \<le> d \<Longrightarrow>
   \<exists>b r2. r = b @ CHR '']'' # r2 \<and> nesting 0 b = Some 0 \<and> nesting d r2 = Some e"
proof (induction "length r" arbitrary: r d rule: less_induct)
  case less
  show ?case
  proof (cases r)
    case Nil
    then show ?thesis using less.prems by simp
  next
    case (Cons c cs)
    consider (close) "c = CHR '']''" | (opn) "c = CHR ''[''"
      | (other) "c \<noteq> CHR '']''" "c \<noteq> CHR ''[''" by blast
    then show ?thesis
    proof cases
      case close
      then have "r = [] @ CHR '']'' # cs \<and> nesting 0 [] = Some 0 \<and> nesting d cs = Some e"
        using Cons less.prems by simp
      then show ?thesis by blast
    next
      case opn
      then have n: "nesting (Suc (Suc d)) cs = Some e" using Cons less.prems by simp
      have "length cs < length r" using Cons by simp
      from less.hyps [OF this n] less.prems(2)
      obtain b1 r1 where 1: "cs = b1 @ CHR '']'' # r1" "nesting 0 b1 = Some 0"
        "nesting (Suc d) r1 = Some e" by auto
      have "length r1 < length r" using Cons 1(1) by simp
      from less.hyps [OF this 1(3) less.prems(2)]
      obtain b2 r2 where 2: "r1 = b2 @ CHR '']'' # r2" "nesting 0 b2 = Some 0"
        "nesting d r2 = Some e" by auto
      have "nesting 1 b1 = Some 1" using nesting_shift [OF 1(2), of 1] by simp
      then have "nesting 0 (CHR ''['' # b1 @ CHR '']'' # b2) = Some 0"
        using 2(2) by (simp add: nesting_append)
      moreover have "r = (CHR ''['' # b1 @ CHR '']'' # b2) @ CHR '']'' # r2"
        using Cons opn 1(1) 2(1) by simp
      ultimately show ?thesis using 2(3) by blast
    next
      case other
      then have n: "nesting (Suc d) cs = Some e" using Cons less.prems by simp
      have "length cs < length r" using Cons by simp
      from less.hyps [OF this n less.prems(2)]
      obtain b1 r2 where 1: "cs = b1 @ CHR '']'' # r2" "nesting 0 b1 = Some 0"
        "nesting d r2 = Some e" by auto
      have "nesting 0 (c # b1) = Some 0" using other 1(2) by simp
      moreover have "r = (c # b1) @ CHR '']'' # r2" using Cons 1(1) by simp
      ultimately show ?thesis using 1(3) by blast
    qed
  qed
qed

lemma run_split:
  "c # cs = replicate (Suc (length (takeWhile (\<lambda>x. x = c) cs))) c @ dropWhile (\<lambda>x. x = c) cs"
proof -
  have "takeWhile (\<lambda>x. x = c) cs = replicate (length (takeWhile (\<lambda>x. x = c) cs)) c"
    by (induction cs) auto
  then have "cs = replicate (length (takeWhile (\<lambda>x. x = c) cs)) c @ dropWhile (\<lambda>x. x = c) cs"
    by (metis takeWhile_dropWhile_id)
  then show ?thesis by (metis append_Cons replicate_Suc)
qed

lemma dropWhile_hd: "dropWhile (\<lambda>x. x = c) cs = [] \<or> hd (dropWhile (\<lambda>x. x = c) cs) \<noteq> c"
  using hd_dropWhile [of "\<lambda>x. x = c" cs] by blast

lemma emits_exists:
  "nesting 0 xs = Some 0 \<Longrightarrow> \<exists>C. emits la xs C"
proof (induction "length xs" arbitrary: xs la rule: less_induct)
  case less
  show ?case
  proof (cases xs)
    case Nil
    then show ?thesis using emits.Empty by blast
  next
    case (Cons c cs)
    let ?m = "length (takeWhile (\<lambda>x. x = c) cs)"
    let ?r = "dropWhile (\<lambda>x. x = c) cs"
    have split: "xs = replicate (Suc ?m) c @ ?r" using Cons run_split by simp
    have shorter: "length ?r < length xs"
      using Cons length_dropWhile_le [of "\<lambda>x. x = c" cs] by simp
    have cl: "c \<noteq> CHR '']''" using Cons less.prems by auto
    consider (run) "isRun c" | (sp) "c = CHR '' ''" | (rd) "c = CHR '',''" | (wr) "c = CHR ''.''"
      | (opn) "c = CHR ''[''" | (other) "\<not> isInstr c" "c \<noteq> CHR '' ''"
      using cl by (auto simp: isInstr_def)
    then show ?thesis
    proof cases
      case run
      then have "nesting 0 ?r = Some 0"
        using less.prems split nesting_replicate [of c 0 "Suc ?m" ?r] by (auto simp: isRun_def)
      from less.hyps [OF shorter this] obtain C where "emits la ?r C" by blast
      from emits.Run [OF run dropWhile_hd this, of ?m] show ?thesis using split by auto
    next
      case sp
      then have "nesting 0 ?r = Some 0"
        using less.prems split nesting_replicate [of c 0 "Suc ?m" ?r] by auto
      from less.hyps [OF shorter this] obtain C where "emits la ?r C" by blast
      from emits.Spaces [OF _ this, of ?m] dropWhile_hd [of c cs] show ?thesis
        using split sp by auto
    next
      case rd
      then have "nesting 0 cs = Some 0" using Cons less.prems by simp
      from less.hyps [OF _ this] Cons obtain C where "emits la cs C" by auto
      then show ?thesis using emits.Read Cons rd by blast
    next
      case wr
      then have "nesting 0 cs = Some 0" using Cons less.prems by simp
      from less.hyps [OF _ this] Cons obtain C where "emits la cs C" by auto
      then show ?thesis using emits.Write Cons wr by blast
    next
      case other
      then have "nesting 0 cs = Some 0" using Cons less.prems by (auto simp: isInstr_def)
      from less.hyps [OF _ this] Cons obtain C where "emits la cs C" by auto
      then show ?thesis using emits.Other [OF other] Cons by blast
    next
      case opn
      then have "nesting (Suc 0) cs = Some 0" using Cons less.prems by simp
      from nesting_split [OF this]
      obtain b r where 1: "cs = b @ CHR '']'' # r" "nesting 0 b = Some 0" "nesting 0 r = Some 0"
        by auto
      have "length b < length xs" "length r < length xs" using Cons 1(1) by simp_all
      from less.hyps [OF this(1) 1(2)] less.hyps [OF this(2) 1(3)]
      obtain B C where "emits (Suc (if r = [] then la else 0)) b B" "emits la r C" by blast
      from emits.Loop [OF this refl] show ?thesis using Cons opn 1(1) by blast
    qed
  qed
qed

section \<open>The generated code on the processor\<close>

subsection \<open>Immediates\<close>

lemma mask32_1: "(0xff :: 32 word) = mask 8"
  by (simp add: mask_eq_exp_minus_1)

lemma mask32_2: "(0xff00 :: 32 word) = push_bit 8 (mask 8)"
  by (simp add: mask_eq_exp_minus_1 push_bit_eq_mult)

lemma mask32_3: "(0xff0000 :: 32 word) = push_bit 16 (mask 8)"
  by (simp add: mask_eq_exp_minus_1 push_bit_eq_mult)

lemma mask32_4: "(0xff000000 :: 32 word) = push_bit 24 (mask 8)"
  by (simp add: mask_eq_exp_minus_1 push_bit_eq_mult)

lemma leWord_resolveAddrDiff: "(leWord (resolveAddrDiff d) :: 32 word) = d"
proof (rule bit_word_eqI)
  fix n assume "n < LENGTH(32)"
  then consider "n < 8" | "8 \<le> n" "n < 16" | "16 \<le> n" "n < 24" | "24 \<le> n" "n < 32"
    by fastforce
  then show "bit (leWord (resolveAddrDiff d) :: 32 word) n = bit d n"
    by cases (auto simp: resolveAddrDiff_def mask32_1 mask32_2 mask32_3 mask32_4 bit_simps)
qed

lemma ucast_and_255: "(ucast ((w :: 64 word) AND 255) :: 8 word) = ucast w"
proof -
  have m: "(255 :: 64 word) = mask 8" by (simp add: mask_eq_exp_minus_1)
  show ?thesis unfolding m by (rule bit_word_eqI) (auto simp: bit_simps)
qed

lemma leWord_chain:
  "(ucast (ucast (drop_bit k (d :: 64 word)) :: 8 word) :: 64 word) OR
     push_bit 8 (drop_bit (k + 8) d) = drop_bit k d"
proof (rule bit_word_eqI)
  fix n assume n: "n < LENGTH(64)"
  show "bit ((ucast (ucast (drop_bit k d) :: 8 word) :: 64 word) OR
      push_bit 8 (drop_bit (k + 8) d)) n = bit (drop_bit k d) n"
  proof (cases "n < 8")
    case True
    then show ?thesis by (auto simp: bit_simps)
  next
    case False
    then have "n - 8 + (k + 8) = k + n" by simp
    then show ?thesis using False n by (auto simp: bit_simps)
  qed
qed

lemma leWord_resolvePtrAddr: "(leWord (resolvePtrAddr d) :: 64 word) = d"
proof -
  have b: "resolvePtrAddr d =
      [ucast (drop_bit 0 d), ucast (drop_bit 8 d), ucast (drop_bit 16 d), ucast (drop_bit 24 d),
       ucast (drop_bit 32 d), ucast (drop_bit 40 d), ucast (drop_bit 48 d), ucast (drop_bit 56 d)]"
    unfolding resolvePtrAddr_def by (simp add: ucast_and_255)
  have z: "drop_bit 64 d = 0" by (simp add: drop_bit_eq_zero_iff_not_bit_last)
  show ?thesis
    unfolding b leWord.simps
    using leWord_chain [of 56 d] leWord_chain [of 48 d] leWord_chain [of 40 d]
      leWord_chain [of 32 d] leWord_chain [of 24 d] leWord_chain [of 16 d]
      leWord_chain [of 8 d] leWord_chain [of 0 d] z
    by simp
qed

lemma sint_rel32_pos: "n < 2 ^ 31 \<Longrightarrow> sint (of_nat n :: 32 word) = int n"
  by (simp add: signed_of_nat signed_take_bit_int_eq_self)

lemma sint_rel32_neg:
  assumes n: "n \<le> 2 ^ 31"
  shows "sint (- of_nat n :: 32 word) = - int n"
proof -
  have "(- of_nat n :: 32 word) = word_of_int (- int n)" by simp
  then have "sint (- of_nat n :: 32 word) = signed_take_bit 31 (- int n)"
    by (simp only: sint_sbintrunc') simp
  also have "\<dots> = - int n" using n by (intro signed_take_bit_int_eq_self) simp_all
  finally show ?thesis .
qed

lemma sint_rel8_pos: "n < 2 ^ 7 \<Longrightarrow> sint (of_nat n :: 8 word) = int n"
  by (simp add: signed_of_nat signed_take_bit_int_eq_self)

lemma scast_imm8_pos: "n < 2 ^ 7 \<Longrightarrow> (scast (of_nat n :: 8 word) :: 64 word) = of_nat n"
  by (simp add: scast_eq sint_rel8_pos)

subsection \<open>Fetching\<close>

lemma codeAt_drop: "codeAt code off bs \<Longrightarrow> \<exists>r. drop off code = bs @ r"
  unfolding codeAt_def by (metis append_take_drop_id)

lemma codeAt_append:
  "codeAt code off (xs @ ys) \<longleftrightarrow> codeAt code off xs \<and> codeAt code (off + length xs) ys"
proof
  assume "codeAt code off (xs @ ys)"
  then obtain r where r: "drop off code = xs @ ys @ r" using codeAt_drop by fastforce
  then have "drop (off + length xs) code = ys @ r"
    by (metis add.commute append_eq_conv_conj drop_drop)
  then show "codeAt code off xs \<and> codeAt code (off + length xs) ys"
    using r by (simp add: codeAt_def)
next
  assume a: "codeAt code off xs \<and> codeAt code (off + length xs) ys"
  then obtain r where r: "drop off code = xs @ r" using codeAt_drop by blast
  then have "drop (off + length xs) code = r"
    by (metis add.commute append_eq_conv_conj drop_drop)
  then have "take (length ys) r = ys" using a by (simp add: codeAt_def)
  then show "codeAt code off (xs @ ys)" using r by (simp add: codeAt_def)
qed

lemma codeAt_Cons:
  "codeAt code off (x # xs) \<longleftrightarrow> codeAt code off [x] \<and> codeAt code (Suc off) xs"
  using codeAt_append [of code off "[x]" xs] by simp

lemma codeAt_whole: "codeAt (pre @ bs @ post) (length pre) bs"
  by (simp add: codeAt_def)

lemma x86Step_fetch:
  assumes "drop (rip s) code = bs" and "decode bs = Some (i, len)"
  shows "x86Step code tapeAddr ret s = execInstr tapeAddr ret i (s\<lparr>rip := rip s + len\<rparr>)"
  using assms by (simp add: x86Step_def)

lemma x86Steps_add:
  "x86Steps (m + n) code tapeAddr ret s =
     (case x86Steps m code tapeAddr ret s of
        Running s' \<Rightarrow> x86Steps n code tapeAddr ret s'
      | r \<Rightarrow> r)"
  by (induction m arbitrary: s) (auto split: status.splits)

lemma x86Steps_trans:
  assumes "x86Steps m code tapeAddr ret s = Running s'"
    and "x86Steps n code tapeAddr ret s' = r"
  shows "x86Steps (m + n) code tapeAddr ret s = r"
  using assms by (simp add: x86Steps_add)

lemma x86Steps_one:
  "x86Step code tapeAddr ret s = r \<Longrightarrow> x86Steps 1 code tapeAddr ret s = r"
  by (cases r) auto

lemma x86Run_steps:
  assumes "x86Steps m code tapeAddr ret s = Running s'"
    and "x86Step code tapeAddr ret s' = Returned s''"
  shows "x86Run (Suc m) code tapeAddr ret s = Some (Returned s'')"
  using assms
proof (induction m arbitrary: s)
  case 0
  then show ?case by simp
next
  case (Suc m)
  from Suc.prems(1) obtain s1 where 1: "x86Step code tapeAddr ret s = Running s1"
    and 2: "x86Steps m code tapeAddr ret s1 = Running s'"
    by (cases "x86Step code tapeAddr ret s") auto
  show ?case using Suc.IH [OF 2 Suc.prems(2)] 1 by simp
qed

subsection \<open>The single instructions\<close>

lemma decode_addb: "decode (0x80 # 0x3 # v # r) = Some (AddbMem v, 3)"
  by (simp add: decode_def)

lemma decode_subb: "decode (0x80 # 0x2b # v # r) = Some (SubbMem v, 3)"
  by (simp add: decode_def)

lemma decode_cmpb: "decode (0x80 # 0x3b # v # r) = Some (CmpbMem v, 3)"
  by (simp add: decode_def)

lemma decode_add_rbx: "decode (0x48 # 0x83 # 0xc3 # v # r) = Some (AddRbx v, 4)"
  by (simp add: decode_def)

lemma decode_sub_rbx: "decode (0x48 # 0x83 # 0xeb # v # r) = Some (SubRbx v, 4)"
  by (simp add: decode_def)

lemma decode_je: "decode (0xf # 0x84 # resolveAddrDiff d @ r) = Some (Je d, 6)"
proof -
  obtain b0 b1 b2 b3 where b: "resolveAddrDiff d = [b0, b1, b2, b3]"
    by (simp add: resolveAddrDiff_def)
  have "leWord (take 4 (drop 2 (0xf # 0x84 # resolveAddrDiff d @ r))) = d"
    using leWord_resolveAddrDiff [of d] by (simp add: b)
  then show ?thesis by (simp add: decode_def b)
qed

lemma decode_jne: "decode (0xf # 0x85 # resolveAddrDiff d @ r) = Some (Jne d, 6)"
proof -
  obtain b0 b1 b2 b3 where b: "resolveAddrDiff d = [b0, b1, b2, b3]"
    by (simp add: resolveAddrDiff_def)
  have "leWord (take 4 (drop 2 (0xf # 0x85 # resolveAddrDiff d @ r))) = d"
    using leWord_resolveAddrDiff [of d] by (simp add: b)
  then show ?thesis by (simp add: decode_def b)
qed

lemma decode_jmp: "decode (0xeb # v # r) = Some (JmpShort v, 2)"
  by (simp add: decode_def)

lemma decode_movabs: "decode (prologue a @ r) = Some (MovabsRbx a, 10)"
proof -
  obtain b0 b1 b2 b3 b4 b5 b6 b7 where b: "resolvePtrAddr a = [b0, b1, b2, b3, b4, b5, b6, b7]"
    by (simp add: resolvePtrAddr_def)
  have "leWord (take 8 (drop 2 (prologue a @ r))) = a"
    using leWord_resolvePtrAddr [of a] by (simp add: b prologue_def)
  then show ?thesis by (simp add: decode_def b prologue_def)
qed

lemma decode_epilogue: "decode (epilogue @ r) = Some (PopRax, 1)"
  "decode (tl epilogue @ r) = Some (JmpRax, 2)"
  by (simp_all add: decode_def epilogue_def)

lemma step_addb:
  assumes "codeAt code (rip s) [0x80, 0x3, v]" and "onTape tapeAddr (rbx s)"
  shows "x86Step code tapeAddr ret s =
     Running (s\<lparr>rip := rip s + 3,
                zf := (cells s (cellAt tapeAddr (rbx s)) + v = 0),
                cells := (cells s)(cellAt tapeAddr (rbx s) :=
                  cells s (cellAt tapeAddr (rbx s)) + v)\<rparr>)"
proof -
  obtain r where "drop (rip s) code = [0x80, 0x3, v] @ r"
    using codeAt_drop [OF assms(1)] by blast
  then show ?thesis
    using assms(2) by (simp add: x86Step_def decode_addb execInstr_def Let_def)
qed

lemma step_subb:
  assumes "codeAt code (rip s) [0x80, 0x2b, v]" and "onTape tapeAddr (rbx s)"
  shows "x86Step code tapeAddr ret s =
     Running (s\<lparr>rip := rip s + 3,
                zf := (cells s (cellAt tapeAddr (rbx s)) - v = 0),
                cells := (cells s)(cellAt tapeAddr (rbx s) :=
                  cells s (cellAt tapeAddr (rbx s)) - v)\<rparr>)"
proof -
  obtain r where "drop (rip s) code = [0x80, 0x2b, v] @ r"
    using codeAt_drop [OF assms(1)] by blast
  then show ?thesis
    using assms(2) by (simp add: x86Step_def decode_subb execInstr_def Let_def)
qed

lemma step_cmpb:
  assumes "codeAt code (rip s) [0x80, 0x3b, v]" and "onTape tapeAddr (rbx s)"
  shows "x86Step code tapeAddr ret s =
     Running (s\<lparr>rip := rip s + 3, zf := (cells s (cellAt tapeAddr (rbx s)) = v)\<rparr>)"
proof -
  obtain r where "drop (rip s) code = [0x80, 0x3b, v] @ r"
    using codeAt_drop [OF assms(1)] by blast
  then show ?thesis
    using assms(2) by (simp add: x86Step_def decode_cmpb execInstr_def Let_def)
qed

lemma step_add_rbx:
  assumes "codeAt code (rip s) [0x48, 0x83, 0xc3, v]"
  shows "x86Step code tapeAddr ret s =
     Running (s\<lparr>rip := rip s + 4, rbx := rbx s + scast v, zf := (rbx s + scast v = 0)\<rparr>)"
proof -
  obtain r where "drop (rip s) code = [0x48, 0x83, 0xc3, v] @ r"
    using codeAt_drop [OF assms(1)] by blast
  then show ?thesis
    by (simp add: x86Step_def decode_add_rbx execInstr_def Let_def)
qed

lemma step_sub_rbx:
  assumes "codeAt code (rip s) [0x48, 0x83, 0xeb, v]"
  shows "x86Step code tapeAddr ret s =
     Running (s\<lparr>rip := rip s + 4, rbx := rbx s - scast v, zf := (rbx s - scast v = 0)\<rparr>)"
proof -
  obtain r where "drop (rip s) code = [0x48, 0x83, 0xeb, v] @ r"
    using codeAt_drop [OF assms(1)] by blast
  then show ?thesis
    by (simp add: x86Step_def decode_sub_rbx execInstr_def Let_def)
qed

lemma step_je:
  assumes "codeAt code (rip s) ([0xf, 0x84] @ resolveAddrDiff d)"
  shows "x86Step code tapeAddr ret s =
     (if zf s then jumpBy (sint d) (s\<lparr>rip := rip s + 6\<rparr>) else Running (s\<lparr>rip := rip s + 6\<rparr>))"
proof -
  obtain r where "drop (rip s) code = ([0xf, 0x84] @ resolveAddrDiff d) @ r"
    using codeAt_drop [OF assms(1)] by blast
  then show ?thesis
    by (simp add: x86Step_def decode_je execInstr_def)
qed

lemma step_jne:
  assumes "codeAt code (rip s) ([0xf, 0x85] @ resolveAddrDiff d)"
  shows "x86Step code tapeAddr ret s =
     (if zf s then Running (s\<lparr>rip := rip s + 6\<rparr>) else jumpBy (sint d) (s\<lparr>rip := rip s + 6\<rparr>))"
proof -
  obtain r where "drop (rip s) code = ([0xf, 0x85] @ resolveAddrDiff d) @ r"
    using codeAt_drop [OF assms(1)] by blast
  then show ?thesis
    by (simp add: x86Step_def decode_jne execInstr_def)
qed

lemma step_jmp:
  assumes "codeAt code (rip s) [0xeb, v]"
  shows "x86Step code tapeAddr ret s = jumpBy (sint v) (s\<lparr>rip := rip s + 2\<rparr>)"
proof -
  obtain r where "drop (rip s) code = [0xeb, v] @ r"
    using codeAt_drop [OF assms(1)] by blast
  then show ?thesis
    by (simp add: x86Step_def decode_jmp execInstr_def)
qed

lemma step_movabs:
  assumes "codeAt code (rip s) (prologue a)"
  shows "x86Step code tapeAddr ret s = Running (s\<lparr>rip := rip s + 10, rbx := a\<rparr>)"
proof -
  obtain r where "drop (rip s) code = prologue a @ r"
    using codeAt_drop [OF assms(1)] by blast
  then show ?thesis
    by (simp add: x86Step_def decode_movabs execInstr_def)
qed

subsection \<open>The system calls and the epilogue\<close>

lemma fetch_offset: "drop off code = bs \<Longrightarrow> drop (off + k) code = drop k bs"
  by (metis add.commute drop_drop)

lemma steps_syscall_prefix:
  assumes c: "drop (rip s) code = [0xb8, n, 0x0, 0x0, 0x2, 0xbf, fd, 0x0, 0x0, 0x0,
      0x48, 0x89, 0xde, 0xba, 0x1, 0x0, 0x0, 0x0, 0xf, 0x5] @ r"
  shows "x86Steps 4 code tapeAddr ret s =
     Running (s\<lparr>rip := rip s + 18, rax := ucast (leWord [n, 0x0, 0x0, 0x2] :: 32 word),
                rdi := ucast (leWord [fd, 0x0, 0x0, 0x0] :: 32 word),
                rsi := rbx s, rdx := 1\<rparr>)"
proof -
  let ?s1 = "s\<lparr>rip := rip s + 5, rax := ucast (leWord [n, 0x0, 0x0, 0x2] :: 32 word)\<rparr>"
  let ?s2 = "?s1\<lparr>rip := rip s + 10, rdi := ucast (leWord [fd, 0x0, 0x0, 0x0] :: 32 word)\<rparr>"
  let ?s3 = "?s2\<lparr>rip := rip s + 13, rsi := rbx s\<rparr>"
  let ?s4 = "?s3\<lparr>rip := rip s + 18, rdx := 1\<rparr>"
  have 1: "x86Step code tapeAddr ret s = Running ?s1"
    by (simp add: x86Step_def c decode_def execInstr_def)
  have "drop (rip ?s1) code = [0xbf, fd, 0x0, 0x0, 0x0,
      0x48, 0x89, 0xde, 0xba, 0x1, 0x0, 0x0, 0x0, 0xf, 0x5] @ r"
    using fetch_offset [OF c, of 5] by simp
  then have 2: "x86Step code tapeAddr ret ?s1 = Running ?s2"
    by (simp add: x86Step_def decode_def execInstr_def)
  have "drop (rip ?s2) code = [0x48, 0x89, 0xde, 0xba, 0x1, 0x0, 0x0, 0x0, 0xf, 0x5] @ r"
    using fetch_offset [OF c, of 10] by simp
  then have 3: "x86Step code tapeAddr ret ?s2 = Running ?s3"
    by (simp add: x86Step_def decode_def execInstr_def)
  have "drop (rip ?s3) code = [0xba, 0x1, 0x0, 0x0, 0x0, 0xf, 0x5] @ r"
    using fetch_offset [OF c, of 13] by simp
  then have 4: "x86Step code tapeAddr ret ?s3 = Running ?s4"
    by (simp add: x86Step_def decode_def execInstr_def)
  have k: "x86Steps (1 + 1 + 1 + 1) code tapeAddr ret s = Running ?s4"
    by (rule x86Steps_trans [OF x86Steps_trans [OF x86Steps_trans
          [OF x86Steps_one [OF 1] x86Steps_one [OF 2]] x86Steps_one [OF 3]] x86Steps_one [OF 4]])
  have e: "(1 + 1 + 1 + 1 :: nat) = 4" by simp
  have r: "?s4 = s\<lparr>rip := rip s + 18, rax := ucast (leWord [n, 0x0, 0x0, 0x2] :: 32 word),
                rdi := ucast (leWord [fd, 0x0, 0x0, 0x0] :: 32 word),
                rsi := rbx s, rdx := 1\<rparr>" by simp
  show ?thesis using k unfolding e r .
qed

lemma steps_read:
  assumes c: "codeAt code (rip s) readSyscall" and t: "onTape tapeAddr (rbx s)"
    and i: "fd0 s = b # bs"
  shows "x86Steps 5 code tapeAddr ret s =
     Running (s\<lparr>rip := rip s + 20, rax := 1, rdi := 0, rsi := rbx s, rdx := 1, fd0 := bs,
                cells := (cells s)(cellAt tapeAddr (rbx s) := b)\<rparr>)"
proof -
  obtain r where d: "drop (rip s) code = readSyscall @ r"
    using codeAt_drop [OF c] by blast
  let ?s4 = "s\<lparr>rip := rip s + 18, rax := ucast (leWord [0x3, 0x0, 0x0, 0x2] :: 32 word),
      rdi := ucast (leWord [0x0, 0x0, 0x0, 0x0] :: 32 word), rsi := rbx s, rdx := 1\<rparr>"
  have 4: "x86Steps 4 code tapeAddr ret s = Running ?s4"
    using d by (intro steps_syscall_prefix) (simp add: readSyscall_def)
  have "drop (rip ?s4) code = [0xf, 0x5] @ r"
    using fetch_offset [OF d, of 18] by (simp add: readSyscall_def)
  then have 5: "x86Step code tapeAddr ret ?s4 =
      Running (s\<lparr>rip := rip s + 20, rax := 1, rdi := 0, rsi := rbx s, rdx := 1, fd0 := bs,
                cells := (cells s)(cellAt tapeAddr (rbx s) := b)\<rparr>)"
    using t i by (simp add: x86Step_def decode_def execInstr_def syscall_def)
  have "x86Steps (4 + 1) code tapeAddr ret s =
      Running (s\<lparr>rip := rip s + 20, rax := 1, rdi := 0, rsi := rbx s, rdx := 1, fd0 := bs,
                cells := (cells s)(cellAt tapeAddr (rbx s) := b)\<rparr>)"
    by (rule x86Steps_trans [OF 4 x86Steps_one [OF 5]])
  moreover have "(4 + 1 :: nat) = 5" by simp
  ultimately show ?thesis by (simp only:)
qed

lemma steps_read_eof:
  assumes c: "codeAt code (rip s) readSyscall" and t: "onTape tapeAddr (rbx s)"
    and i: "fd0 s = []"
  shows "x86Steps 5 code tapeAddr ret s =
     Running (s\<lparr>rip := rip s + 20, rax := 0, rdi := 0, rsi := rbx s, rdx := 1\<rparr>)"
proof -
  obtain r where d: "drop (rip s) code = readSyscall @ r"
    using codeAt_drop [OF c] by blast
  let ?s4 = "s\<lparr>rip := rip s + 18, rax := ucast (leWord [0x3, 0x0, 0x0, 0x2] :: 32 word),
      rdi := ucast (leWord [0x0, 0x0, 0x0, 0x0] :: 32 word), rsi := rbx s, rdx := 1\<rparr>"
  have 4: "x86Steps 4 code tapeAddr ret s = Running ?s4"
    using d by (intro steps_syscall_prefix) (simp add: readSyscall_def)
  have "drop (rip ?s4) code = [0xf, 0x5] @ r"
    using fetch_offset [OF d, of 18] by (simp add: readSyscall_def)
  then have 5: "x86Step code tapeAddr ret ?s4 =
      Running (s\<lparr>rip := rip s + 20, rax := 0, rdi := 0, rsi := rbx s, rdx := 1\<rparr>)"
    using t i by (simp add: x86Step_def decode_def execInstr_def syscall_def)
  have "x86Steps (4 + 1) code tapeAddr ret s =
      Running (s\<lparr>rip := rip s + 20, rax := 0, rdi := 0, rsi := rbx s, rdx := 1\<rparr>)"
    by (rule x86Steps_trans [OF 4 x86Steps_one [OF 5]])
  moreover have "(4 + 1 :: nat) = 5" by simp
  ultimately show ?thesis by (simp only:)
qed

lemma steps_write:
  assumes c: "codeAt code (rip s) writeSyscall" and t: "onTape tapeAddr (rbx s)"
  shows "x86Steps 5 code tapeAddr ret s =
     Running (s\<lparr>rip := rip s + 20, rax := 1, rdi := 1, rsi := rbx s, rdx := 1,
                fd1 := fd1 s @ [cells s (cellAt tapeAddr (rbx s))]\<rparr>)"
proof -
  obtain r where d: "drop (rip s) code = writeSyscall @ r"
    using codeAt_drop [OF c] by blast
  let ?s4 = "s\<lparr>rip := rip s + 18, rax := ucast (leWord [0x4, 0x0, 0x0, 0x2] :: 32 word),
      rdi := ucast (leWord [0x1, 0x0, 0x0, 0x0] :: 32 word), rsi := rbx s, rdx := 1\<rparr>"
  have 4: "x86Steps 4 code tapeAddr ret s = Running ?s4"
    using d by (intro steps_syscall_prefix) (simp add: writeSyscall_def)
  have "drop (rip ?s4) code = [0xf, 0x5] @ r"
    using fetch_offset [OF d, of 18] by (simp add: writeSyscall_def)
  then have 5: "x86Step code tapeAddr ret ?s4 =
      Running (s\<lparr>rip := rip s + 20, rax := 1, rdi := 1, rsi := rbx s, rdx := 1,
                fd1 := fd1 s @ [cells s (cellAt tapeAddr (rbx s))]\<rparr>)"
    using t by (simp add: x86Step_def decode_def execInstr_def syscall_def)
  have "x86Steps (4 + 1) code tapeAddr ret s =
      Running (s\<lparr>rip := rip s + 20, rax := 1, rdi := 1, rsi := rbx s, rdx := 1,
                fd1 := fd1 s @ [cells s (cellAt tapeAddr (rbx s))]\<rparr>)"
    by (rule x86Steps_trans [OF 4 x86Steps_one [OF 5]])
  moreover have "(4 + 1 :: nat) = 5" by simp
  ultimately show ?thesis by (simp only:)
qed

lemma run_epilogue:
  assumes c: "codeAt code (rip s) epilogue" and st: "stack s = ret # stk"
  shows "x86Run 2 code tapeAddr ret s =
     Some (Returned (s\<lparr>rip := rip s + 3, rax := ret, stack := stk\<rparr>))"
proof -
  obtain r where d: "drop (rip s) code = epilogue @ r"
    using codeAt_drop [OF c] by blast
  let ?s1 = "s\<lparr>rip := rip s + 1, rax := ret, stack := stk\<rparr>"
  have 1: "x86Step code tapeAddr ret s = Running ?s1"
    using st by (simp add: x86Step_def d decode_epilogue execInstr_def)
  have "drop (rip ?s1) code = tl epilogue @ r"
    using fetch_offset [OF d, of 1] by (simp add: epilogue_def)
  then have 2: "x86Step code tapeAddr ret ?s1 =
      Returned (s\<lparr>rip := rip s + 3, rax := ret, stack := stk\<rparr>)"
    by (simp add: x86Step_def decode_epilogue execInstr_def)
  show ?thesis
    using 1 2 by (simp add: numeral_2_eq_2)
qed

section \<open>The two modes agree\<close>

subsection \<open>Turns of the interpreter\<close>

lemma charAt_drop:
  assumes "drop i p = ch # rest"
  shows "charAt p i = ch"
proof -
  have "i < length p" using assms by (cases "i < length p") auto
  then show ?thesis using assms by (simp add: charAt_def hd_drop_conv_nth [symmetric])
qed

lemma runLen_drop:
  assumes "drop i p = ch # rest"
  shows "runLen p x (Suc i) = length (takeWhile (\<lambda>y. y = x) rest)"
proof -
  have "drop (Suc i) p = tl (drop i p)" by (simp add: drop_Suc tl_drop)
  then show ?thesis using assms by (simp add: runLen_def)
qed

lemma charAt_end: "drop i p = [] \<Longrightarrow> charAt p i = NUL"
  by (simp add: charAt_def)

lemma bfStep_bfExec:
  "bfStep p c = bfExec (charAt p (program c)) (runLen p (charAt p (program c)) (Suc (program c))) c"
  by (simp add: bfStep_def bfExec_def Let_def)

lemma bfStep_drop:
  assumes "drop (program c) p = ch # rest"
  shows "bfStep p c = bfExec ch (length (takeWhile (\<lambda>y. y = ch) rest)) c"
  unfolding bfStep_bfExec charAt_drop [OF assms] runLen_drop [OF assms] ..

lemma bfStep_run:
  assumes "drop (program c) p = replicate (Suc m) ch @ rest" and "rest = [] \<or> hd rest \<noteq> ch"
  shows "bfStep p c = bfExec ch m c"
proof -
  have "drop (program c) p = ch # (replicate m ch @ rest)" using assms(1) by simp
  from bfStep_drop [OF this] takeWhile_run [OF assms(2), of m] show ?thesis by simp
qed

lemma bfSteps_add:
  "bfSteps (m + n) p c = (case bfSteps m p c of Running c' \<Rightarrow> bfSteps n p c' | r \<Rightarrow> r)"
  by (induction m arbitrary: c) (auto split: status.splits)

lemma bfSteps_trans:
  assumes "bfSteps m p c = Running c'" and "bfSteps n p c' = r"
  shows "bfSteps (m + n) p c = r"
  using assms by (simp add: bfSteps_add)

lemma bfSteps_one: "bfStep p c = r \<Longrightarrow> bfSteps 1 p c = r"
  by (cases r) auto

lemma bfInterpret_step:
  assumes "bfInterpret n p c = Some r" and "bfStep p c = Running c'"
  shows "0 < n \<and> bfInterpret (n - 1) p c' = Some r"
  using assms by (cases n) auto

lemma bfInterpret_steps:
  assumes "bfSteps m p c = Running c'" and "bfInterpret n p c = Some r"
  shows "m < n \<and> bfInterpret (n - m) p c' = Some r"
  using assms
proof (induction m arbitrary: c n)
  case 0
  then show ?case by (cases n) auto
next
  case (Suc m)
  from Suc.prems(1) obtain c1 where 1: "bfStep p c = Running c1"
    and 2: "bfSteps m p c1 = Running c'"
    by (cases "bfStep p c") auto
  from bfInterpret_step [OF Suc.prems(2) 1]
  have 3: "0 < n" "bfInterpret (n - 1) p c1 = Some r" by simp_all
  from Suc.IH [OF 2 3(2)] 3(1) show ?case by auto
qed

lemma bfInterpret_not_failed:
  assumes "bfInterpret n p c = Some (Returned cf)"
  shows "bfStep p c \<noteq> Failed f"
  using assms by (cases n) (auto split: status.splits)

lemma bfStep_eof_sticky:
  assumes "stdin_eof c" and "bfStep p c = Running c' \<or> bfStep p c = Returned c'"
  shows "stdin_eof c'"
  using assms
  by (auto simp: bfStep_def Let_def setCell_def split: if_splits prod.splits)

lemma bfInterpret_eof_sticky:
  "bfInterpret n p c = Some (Returned cf) \<Longrightarrow> stdin_eof c \<Longrightarrow> stdin_eof cf"
proof (induction n arbitrary: c)
  case 0
  then show ?case by simp
next
  case (Suc n)
  show ?case
  proof (cases "bfStep p c")
    case (Running c1)
    then show ?thesis using Suc bfStep_eof_sticky [of c p c1] by auto
  next
    case (Returned c1)
    then show ?thesis using Suc.prems bfStep_eof_sticky [of c p c1] by auto
  next
    case (Failed f)
    then show ?thesis using Suc.prems by simp
  qed
qed

subsection \<open>Runs that return\<close>

lemma completes_steps:
  assumes "completes prog c cf" and "bfSteps m prog c = Running c1"
  shows "completes prog c1 cf"
  using assms bfInterpret_steps [OF assms(2)] unfolding completes_def by blast

lemma completes_step:
  assumes "completes prog c cf" and "bfStep prog c = Running c1"
  shows "completes prog c1 cf"
  using completes_steps [OF assms(1) bfSteps_one [OF assms(2)]] .

lemma completes_not_failed:
  assumes "completes prog c cf"
  shows "bfStep prog c \<noteq> Failed f"
  using assms bfInterpret_not_failed unfolding completes_def by blast

lemma completes_no_eof:
  assumes "completes prog c cf"
  shows "\<not> stdin_eof c"
  using assms bfInterpret_eof_sticky unfolding completes_def by blast

subsection \<open>Skipping a loop body\<close>

lemma isRun_cases:
  assumes "isRun ch"
  obtains "ch = CHR ''+''" | "ch = CHR ''-''" | "ch = CHR ''>''" | "ch = CHR ''<''"
  using assms unfolding isRun_def by blast

lemma bfExec_suppressed_run:
  assumes "isRun ch" and "0 < nskip c"
  shows "bfExec ch m c = Running (c\<lparr>program := program c + Suc m\<rparr>)"
proof -
  consider "ch = CHR ''+''" | "ch = CHR ''-''" | "ch = CHR ''>''" | "ch = CHR ''<''"
    using assms(1) by (rule isRun_cases)
  then show ?thesis
    using assms(2) by cases (simp_all add: bfExec_def Let_def)
qed

lemma follows_loop:
  assumes "emits la r C" and "follows la tpost"
  shows "follows (Suc (if r = [] then la else 0)) (CHR '']'' # r @ tpost)"
proof -
  have nc: "dropWhile (\<lambda>x. x = CHR '']'') (r @ tpost) \<noteq> []"
    by (rule emits_not_closers [OF assms])
  show ?thesis
  proof (cases "r = []")
    case True
    then show ?thesis using assms(2) by (simp add: follows_def closers_def)
  next
    case False
    then show ?thesis
      using closers_emits_append [OF assms(1) False, of tpost] nc
      by (simp add: follows_def closers_def)
  qed
qed

lemma run_boundary:
  assumes "isRun ch \<or> ch = CHR '' ''" and "r = [] \<or> hd r \<noteq> ch" and "follows la tpost"
  shows "r @ tpost = [] \<or> hd (r @ tpost) \<noteq> ch"
  using assms by (cases r) (auto simp: follows_def isRun_def NUL_def)

lemma skip_body:
  assumes "emits la xs C"
  shows "drop (program c) prog = xs @ tpost \<Longrightarrow> follows la tpost \<Longrightarrow> NUL \<notin> set xs \<Longrightarrow>
     0 < nskip c \<Longrightarrow> cell c = 0 \<Longrightarrow> inRange (ptr c) \<Longrightarrow> completes prog c cf \<Longrightarrow>
     \<exists>m. bfSteps m prog c = Running (c\<lparr>program := program c + length xs\<rparr>)"
  using assms
proof (induction arbitrary: c tpost rule: emits.induct)
  case (Empty la)
  have "bfSteps 0 prog c = Running (c\<lparr>program := program c + length ([] :: string)\<rparr>)"
    by simp
  then show ?case by blast
next
  case (Run ch r la C m0)
  let ?c1 = "c\<lparr>program := program c + Suc m0\<rparr>"
  have at: "drop (program c) prog = replicate (Suc m0) ch @ (r @ tpost)"
    using Run.prems(1) by simp
  have b: "r @ tpost = [] \<or> hd (r @ tpost) \<noteq> ch"
    using run_boundary [OF _ Run.hyps(2) Run.prems(2)] Run.hyps(1) by simp
  have 1: "bfStep prog c = Running ?c1"
    unfolding bfStep_run [OF at b] by (rule bfExec_suppressed_run [OF Run.hyps(1) Run.prems(4)])
  have d: "drop (program ?c1) prog = r @ tpost"
    using fetch_offset [OF Run.prems(1), of "Suc m0"] by simp
  have f: "completes prog ?c1 cf" by (rule completes_step [OF Run.prems(7) 1])
  have nr: "NUL \<notin> set r" using Run.prems(3) by simp
  from Run.IH [OF d Run.prems(2) nr _ _ _ f] Run.prems(4-6)
  obtain m where 2: "bfSteps m prog ?c1 = Running (?c1\<lparr>program := program ?c1 + length r\<rparr>)"
    by (auto simp: cell_def)
  have "bfSteps (1 + m) prog c = Running (?c1\<lparr>program := program ?c1 + length r\<rparr>)"
    by (rule bfSteps_trans [OF bfSteps_one [OF 1] 2])
  then have "bfSteps (1 + m) prog c =
      Running (c\<lparr>program := program c + length (replicate (Suc m0) ch @ r)\<rparr>)"
    by (simp add: add.assoc)
  then show ?case by blast
next
  case (Read la r C)
  let ?c1 = "c\<lparr>program := program c + 1\<rparr>"
  have at: "drop (program c) prog = CHR '','' # (r @ tpost)" using Read.prems(1) by simp
  have 1: "bfStep prog c = Running ?c1"
    unfolding bfStep_drop [OF at] using Read.prems(4) by (simp add: bfExec_def Let_def)
  have d: "drop (program ?c1) prog = r @ tpost"
    using fetch_offset [OF at, of 1] by simp
  have f: "completes prog ?c1 cf" by (rule completes_step [OF Read.prems(7) 1])
  have nr: "NUL \<notin> set r" using Read.prems(3) by simp
  from Read.IH [OF d Read.prems(2) nr _ _ _ f] Read.prems(4-6)
  obtain m where 2: "bfSteps m prog ?c1 = Running (?c1\<lparr>program := program ?c1 + length r\<rparr>)"
    by (auto simp: cell_def)
  have "bfSteps (1 + m) prog c = Running (?c1\<lparr>program := program ?c1 + length r\<rparr>)"
    by (rule bfSteps_trans [OF bfSteps_one [OF 1] 2])
  then have "bfSteps (1 + m) prog c =
      Running (c\<lparr>program := program c + length (CHR '','' # r)\<rparr>)"
    by (simp add: add.assoc)
  then show ?case by blast
next
  case (Write la r C)
  let ?c1 = "c\<lparr>program := program c + 1\<rparr>"
  have at: "drop (program c) prog = CHR ''.'' # (r @ tpost)" using Write.prems(1) by simp
  have 1: "bfStep prog c = Running ?c1"
    unfolding bfStep_drop [OF at] using Write.prems(4) by (simp add: bfExec_def Let_def)
  have d: "drop (program ?c1) prog = r @ tpost"
    using fetch_offset [OF at, of 1] by simp
  have f: "completes prog ?c1 cf" by (rule completes_step [OF Write.prems(7) 1])
  have nr: "NUL \<notin> set r" using Write.prems(3) by simp
  from Write.IH [OF d Write.prems(2) nr _ _ _ f] Write.prems(4-6)
  obtain m where 2: "bfSteps m prog ?c1 = Running (?c1\<lparr>program := program ?c1 + length r\<rparr>)"
    by (auto simp: cell_def)
  have "bfSteps (1 + m) prog c = Running (?c1\<lparr>program := program ?c1 + length r\<rparr>)"
    by (rule bfSteps_trans [OF bfSteps_one [OF 1] 2])
  then have "bfSteps (1 + m) prog c =
      Running (c\<lparr>program := program c + length (CHR ''.'' # r)\<rparr>)"
    by (simp add: add.assoc)
  then show ?case by blast
next
  case (Spaces r la C m0)
  let ?c1 = "c\<lparr>program := program c + Suc m0\<rparr>"
  have at: "drop (program c) prog = replicate (Suc m0) (CHR '' '') @ (r @ tpost)"
    using Spaces.prems(1) by simp
  have b: "r @ tpost = [] \<or> hd (r @ tpost) \<noteq> CHR '' ''"
    using run_boundary [OF _ Spaces.hyps(1) Spaces.prems(2)] by simp
  have 1: "bfStep prog c = Running ?c1"
    unfolding bfStep_run [OF at b] by (simp add: bfExec_def Let_def)
  have d: "drop (program ?c1) prog = r @ tpost"
    using fetch_offset [OF Spaces.prems(1), of "Suc m0"] by simp
  have f: "completes prog ?c1 cf" by (rule completes_step [OF Spaces.prems(7) 1])
  have nr: "NUL \<notin> set r" using Spaces.prems(3) by simp
  from Spaces.IH [OF d Spaces.prems(2) nr _ _ _ f] Spaces.prems(4-6)
  obtain m where 2: "bfSteps m prog ?c1 = Running (?c1\<lparr>program := program ?c1 + length r\<rparr>)"
    by (auto simp: cell_def)
  have "bfSteps (1 + m) prog c = Running (?c1\<lparr>program := program ?c1 + length r\<rparr>)"
    by (rule bfSteps_trans [OF bfSteps_one [OF 1] 2])
  then have "bfSteps (1 + m) prog c =
      Running (c\<lparr>program := program c + length (replicate (Suc m0) (CHR '' '') @ r)\<rparr>)"
    by (simp add: add.assoc)
  then show ?case by blast
next
  case (Other ch la r C)
  let ?c1 = "c\<lparr>program := program c + 1\<rparr>"
  have at: "drop (program c) prog = ch # (r @ tpost)" using Other.prems(1) by simp
  have nn: "ch \<noteq> NUL" using Other.prems(3) by auto
  have 1: "bfStep prog c = Running ?c1"
    unfolding bfStep_drop [OF at]
    using Other.hyps(1,2) nn by (simp add: bfExec_def Let_def isInstr_def isRun_def)
  have d: "drop (program ?c1) prog = r @ tpost"
    using fetch_offset [OF at, of 1] by simp
  have f: "completes prog ?c1 cf" by (rule completes_step [OF Other.prems(7) 1])
  have nr: "NUL \<notin> set r" using Other.prems(3) by simp
  from Other.IH [OF d Other.prems(2) nr _ _ _ f] Other.prems(4-6)
  obtain m where 2: "bfSteps m prog ?c1 = Running (?c1\<lparr>program := program ?c1 + length r\<rparr>)"
    by (auto simp: cell_def)
  have "bfSteps (1 + m) prog c = Running (?c1\<lparr>program := program ?c1 + length r\<rparr>)"
    by (rule bfSteps_trans [OF bfSteps_one [OF 1] 2])
  then have "bfSteps (1 + m) prog c = Running (c\<lparr>program := program c + length (ch # r)\<rparr>)"
    by (simp add: add.assoc)
  then show ?case by blast
next
  case (Loop k b B la r C)
  let ?d = "length (loops c)"
  let ?c1 = "c\<lparr>program := program c + 1, loops := (program c + 1) # loops c,
      nskip := nskip c + 1\<rparr>"
  let ?c2 = "?c1\<lparr>program := program ?c1 + length b\<rparr>"
  let ?c3 = "c\<lparr>program := program c + length b + 2\<rparr>"
  have at: "drop (program c) prog = CHR ''['' # (b @ CHR '']'' # r @ tpost)"
    using Loop.prems(1) by simp
  have "length (loops c) \<noteq> MAX_NESTING"
    using completes_not_failed [OF Loop.prems(7), of Terminate]
    unfolding bfStep_drop [OF at] by (auto simp: bfExec_def Let_def)
  then have 1: "bfStep prog c = Running ?c1"
    unfolding bfStep_drop [OF at]
    using Loop.prems(4-6) by (simp add: bfExec_def Let_def)
  have f1: "completes prog ?c1 cf" by (rule completes_step [OF Loop.prems(7) 1])
  have d1: "drop (program ?c1) prog = b @ CHR '']'' # r @ tpost"
    using fetch_offset [OF at, of 1] by simp
  have fl: "follows (Suc k) (CHR '']'' # r @ tpost)"
    using follows_loop [OF Loop.hyps(2) Loop.prems(2)] Loop.hyps(3) by simp
  have nb: "NUL \<notin> set b" and nr: "NUL \<notin> set r" using Loop.prems(3) by simp_all
  from Loop.IH(1) [OF d1 fl nb _ _ _ f1] Loop.prems(4-6)
  obtain m1 where 2: "bfSteps m1 prog ?c1 = Running ?c2"
    by (auto simp: cell_def)
  have f2: "completes prog ?c2 cf" by (rule completes_steps [OF f1 2])
  have d2: "drop (program ?c2) prog = CHR '']'' # (r @ tpost)"
    using fetch_offset [OF d1, of "length b"] by (simp add: add.commute)
  have 3: "bfStep prog ?c2 = Running ?c3"
    unfolding bfStep_drop [OF d2]
    using Loop.prems(4-6) by (simp add: bfExec_def Let_def cell_def)
  have d3: "drop (program ?c3) prog = r @ tpost"
    using fetch_offset [OF d2, of 1] by (simp add: add.commute add.left_commute)
  have f3: "completes prog ?c3 cf" by (rule completes_step [OF f2 3])
  from Loop.IH(2) [OF d3 Loop.prems(2) nr _ _ _ f3] Loop.prems(4-6)
  obtain m2 where 4: "bfSteps m2 prog ?c3 = Running (?c3\<lparr>program := program ?c3 + length r\<rparr>)"
    by (auto simp: cell_def)
  have "bfSteps (1 + m1 + 1 + m2) prog c =
      Running (?c3\<lparr>program := program ?c3 + length r\<rparr>)"
    by (rule bfSteps_trans [OF bfSteps_trans [OF bfSteps_trans
          [OF bfSteps_one [OF 1] 2] bfSteps_one [OF 3]] 4])
  then have "bfSteps (1 + m1 + 1 + m2) prog c =
      Running (c\<lparr>program := program c + length (CHR ''['' # b @ CHR '']'' # r)\<rparr>)"
    by (simp add: add.assoc)
  then show ?case by blast
qed

subsection \<open>Side conditions\<close>

lemma longestRun_drop: "longestRun c (drop i p) \<le> longestRun c p"
proof (induction p arbitrary: i)
  case Nil
  show ?case by simp
next
  case (Cons x xs)
  show ?case
  proof (cases i)
    case 0
    then show ?thesis by simp
  next
    case (Suc j)
    have "longestRun c (drop j xs) \<le> longestRun c xs" by (rule Cons.IH)
    then show ?thesis using Suc by simp
  qed
qed

lemma longestRun_replicate: "n \<le> longestRun c (replicate n c @ rest)"
proof (cases n)
  case 0
  then show ?thesis by simp
next
  case (Suc m)
  have "length (takeWhile (\<lambda>y. y = c) (replicate m c @ rest)) \<ge> m"
    by (induction m) simp_all
  then show ?thesis using Suc by simp
qed

lemma longestRun_at:
  assumes "drop i p = replicate n c @ rest"
  shows "n \<le> longestRun c p"
  using longestRun_replicate [of n c rest] longestRun_drop [of c i p] assms by simp

lemma follows_replicate:
  assumes "follows la tpost"
  shows "\<exists>t. tpost = replicate la (CHR '']'') @ t"
proof -
  have "takeWhile (\<lambda>x. x = CHR '']'') tpost =
      replicate (length (takeWhile (\<lambda>x. x = CHR '']'') tpost)) (CHR '']'')"
    by (induction tpost) auto
  then have "takeWhile (\<lambda>x. x = CHR '']'') tpost = replicate la (CHR '']'')"
    using assms by (simp add: follows_def closers_def)
  then show ?thesis by (metis takeWhile_dropWhile_id)
qed

lemma closers_bound:
  assumes "drop i p = xs @ CHR '']'' # tpost" and "follows la tpost"
    and "longestRun (CHR '']'') p \<le> 12"
  shows "la \<le> 11"
proof -
  obtain t where "tpost = replicate la (CHR '']'') @ t"
    using follows_replicate [OF assms(2)] by blast
  then have "drop (i + length xs) p = replicate (Suc la) (CHR '']'') @ t"
    using fetch_offset [OF assms(1), of "length xs"] by simp
  from longestRun_at [OF this] assms(3) show ?thesis by simp
qed

lemma codeAt_length:
  assumes "codeAt code off bs" and "bs \<noteq> []"
  shows "off + length bs \<le> length code"
proof -
  have "length (take (length bs) (drop off code)) = length bs"
    using assms(1) by (simp add: codeAt_def)
  then show ?thesis using assms(2) by (cases "off < length code") auto
qed

lemma emits_Nil: "emits la [] C \<Longrightarrow> C = []"
  by (cases rule: emits.cases) auto

subsection \<open>Related states\<close>

lemma unat_cursor:
  assumes "inRange p"
  shows "unat (word_of_int p :: 64 word) = nat p"
proof -
  have "0 \<le> p" "p < 2 ^ 64" using assms by (simp_all add: inRange_def TAPE_SIZE_def)
  then show ?thesis by (simp add: unat_eq_nat_uint uint_word_of_int take_bit_int_eq_self)
qed

lemma related_cell:
  assumes "related tapeAddr ret c s" and "inRange (ptr c)"
  shows "onTape tapeAddr (rbx s)" and "cellAt tapeAddr (rbx s) = nat (ptr c)"
    and "cells s (nat (ptr c)) = cell c"
proof -
  have n: "nat (ptr c) < TAPE_SIZE" using assms(2) by (auto simp: inRange_def)
  have r: "rbx s - tapeAddr = word_of_int (ptr c)" using assms(1) by (simp add: related_def)
  show "onTape tapeAddr (rbx s)" "cellAt tapeAddr (rbx s) = nat (ptr c)"
    using n unat_cursor [OF assms(2)] by (simp_all add: onTape_def cellAt_def r)
  show "cells s (nat (ptr c)) = cell c" using assms(1) by (simp add: related_def cell_def)
qed

lemma segDone_trans:
  assumes "bfSteps m prog c = Running c1" and "x86Steps j code tapeAddr ret s = Running s1"
    and "loops c1 = loops c" and "segDone prog code tapeAddr ret la c1 s1 tpos cpos"
  shows "segDone prog code tapeAddr ret la c s tpos cpos"
proof -
  from assms(4) obtain m' c' j' s' where
    1: "bfSteps m' prog c1 = Running c'" and 2: "x86Steps j' code tapeAddr ret s1 = Running s'"
    and 3: "program c' = tpos" "nskip c' = 0" "loops c' = loops c1" "related tapeAddr ret c' s'"
      "rip s' = cpos \<or> (0 < la \<and> cell c' = 0 \<and> rip s' = cpos + 11 * la - 2)"
    unfolding segDone_def by blast
  have "bfSteps (m + m') prog c = Running c'" by (rule bfSteps_trans [OF assms(1) 1])
  moreover have "x86Steps (j + j') code tapeAddr ret s = Running s'"
    by (rule x86Steps_trans [OF assms(2) 2])
  ultimately show ?thesis using 3 assms(3) unfolding segDone_def by metis
qed

lemma segDone_here:
  assumes "program c = tpos" and "nskip c = 0" and "related tapeAddr ret c s"
    and "rip s = cpos \<or> (0 < la \<and> cell c = 0 \<and> rip s = cpos + 11 * la - 2)"
  shows "segDone prog code tapeAddr ret la c s tpos cpos"
proof -
  have "bfSteps 0 prog c = Running c" "x86Steps 0 code tapeAddr ret s = Running s" by simp_all
  then show ?thesis using assms unfolding segDone_def by blast
qed

subsection \<open>One token in both modes\<close>

lemma tok_cell_run:
  assumes at: "drop (program c) prog = replicate (Suc m) ch @ rest"
    and b: "rest = [] \<or> hd rest \<noteq> ch"
    and ch: "ch = CHR ''+'' \<or> ch = CHR ''-''"
    and code: "codeAt code (rip s) (runOp ch @ [of_nat (Suc m)])"
    and ns: "nskip c = 0" and rel: "related tapeAddr ret c s"
    and ok: "\<And>f. bfStep prog c \<noteq> Failed f"
  shows "\<exists>c1 s1. bfStep prog c = Running c1 \<and> x86Step code tapeAddr ret s = Running s1 \<and>
     program c1 = program c + Suc m \<and> nskip c1 = 0 \<and> loops c1 = loops c \<and>
     related tapeAddr ret c1 s1 \<and> rip s1 = rip s + 3"
proof -
  have st: "bfStep prog c = bfExec ch m c" by (rule bfStep_run [OF at b])
  have ir: "inRange (ptr c)"
    using ok [of TapeOutOfRange] ch ns unfolding st
    by (auto simp: bfExec_def Let_def split: if_splits)
  note rc = related_cell [OF rel ir]
  from ch show ?thesis
  proof
    assume p: "ch = CHR ''+''"
    let ?c1 = "setCell (cell c + of_nat (1 + m)) (c\<lparr>program := program c + 1 + m\<rparr>)"
    have 1: "bfStep prog c = Running ?c1"
      unfolding st using p ns ir by (simp add: bfExec_def Let_def)
    have "codeAt code (rip s) [0x80, 0x3, of_nat (Suc m)]"
      using code p by (simp add: runOp_def)
    from step_addb [OF this rc(1), of ret]
    have 2: "x86Step code tapeAddr ret s =
        Running (s\<lparr>rip := rip s + 3, zf := (cell c + of_nat (Suc m) = 0),
                   cells := (cells s)(nat (ptr c) := cell c + of_nat (Suc m))\<rparr>)"
      by (simp only: rc)
    show ?thesis
      using 1 2 rel ns by (auto simp: related_def setCell_def simp del: of_nat_Suc of_nat_add)
  next
    assume p: "ch = CHR ''-''"
    let ?c1 = "setCell (cell c - of_nat (1 + m)) (c\<lparr>program := program c + 1 + m\<rparr>)"
    have 1: "bfStep prog c = Running ?c1"
      unfolding st using p ns ir by (simp add: bfExec_def Let_def)
    have "codeAt code (rip s) [0x80, 0x2b, of_nat (Suc m)]"
      using code p by (simp add: runOp_def)
    from step_subb [OF this rc(1), of ret]
    have 2: "x86Step code tapeAddr ret s =
        Running (s\<lparr>rip := rip s + 3, zf := (cell c - of_nat (Suc m) = 0),
                   cells := (cells s)(nat (ptr c) := cell c - of_nat (Suc m))\<rparr>)"
      by (simp only: rc)
    show ?thesis
      using 1 2 rel ns by (auto simp: related_def setCell_def simp del: of_nat_Suc of_nat_add)
  qed
qed

lemma tok_move_run:
  assumes at: "drop (program c) prog = replicate (Suc m) ch @ rest"
    and b: "rest = [] \<or> hd rest \<noteq> ch"
    and ch: "ch = CHR ''>'' \<or> ch = CHR ''<''"
    and code: "codeAt code (rip s) (runOp ch @ [of_nat (Suc m)])"
    and ns: "nskip c = 0" and rel: "related tapeAddr ret c s"
    and bound: "Suc m \<le> 127"
  shows "\<exists>c1 s1. bfStep prog c = Running c1 \<and> x86Step code tapeAddr ret s = Running s1 \<and>
     program c1 = program c + Suc m \<and> nskip c1 = 0 \<and> loops c1 = loops c \<and>
     related tapeAddr ret c1 s1 \<and> rip s1 = rip s + 4"
proof -
  have st: "bfStep prog c = bfExec ch m c" by (rule bfStep_run [OF at b])
  have sc: "(scast (of_nat (Suc m) :: 8 word) :: 64 word) = of_nat (Suc m)"
    using bound by (intro scast_imm8_pos) simp
  have w: "(word_of_int (ptr c + int (Suc m)) :: 64 word) = word_of_int (ptr c) + of_nat (Suc m)"
    "(word_of_int (ptr c - int (Suc m)) :: 64 word) = word_of_int (ptr c) - of_nat (Suc m)"
    by (simp_all del: of_nat_Suc)
  from ch show ?thesis
  proof
    assume p: "ch = CHR ''>''"
    let ?c1 = "c\<lparr>program := program c + 1 + m, ptr := ptr c + int (Suc m)\<rparr>"
    have 1: "bfStep prog c = Running ?c1"
      unfolding st using p ns by (simp add: bfExec_def Let_def)
    have "codeAt code (rip s) [0x48, 0x83, 0xc3, of_nat (Suc m)]"
      using code p by (simp add: runOp_def)
    from step_add_rbx [OF this, of tapeAddr ret]
    have 2: "x86Step code tapeAddr ret s =
        Running (s\<lparr>rip := rip s + 4, rbx := rbx s + of_nat (Suc m),
                   zf := (rbx s + of_nat (Suc m) = 0)\<rparr>)"
      by (simp only: sc)
    show ?thesis
      using 1 2 rel w ns by (auto simp: related_def simp del: of_nat_Suc of_nat_add)
  next
    assume p: "ch = CHR ''<''"
    let ?c1 = "c\<lparr>program := program c + 1 + m, ptr := ptr c - int (Suc m)\<rparr>"
    have 1: "bfStep prog c = Running ?c1"
      unfolding st using p ns by (simp add: bfExec_def Let_def)
    have "codeAt code (rip s) [0x48, 0x83, 0xeb, of_nat (Suc m)]"
      using code p by (simp add: runOp_def)
    from step_sub_rbx [OF this, of tapeAddr ret]
    have 2: "x86Step code tapeAddr ret s =
        Running (s\<lparr>rip := rip s + 4, rbx := rbx s - of_nat (Suc m),
                   zf := (rbx s - of_nat (Suc m) = 0)\<rparr>)"
      by (simp only: sc)
    show ?thesis
      using 1 2 rel w ns by (auto simp: related_def simp del: of_nat_Suc of_nat_add)
  qed
qed

lemma tok_read:
  assumes at: "drop (program c) prog = CHR '','' # rest"
    and code: "codeAt code (rip s) readSyscall"
    and ns: "nskip c = 0" and rel: "related tapeAddr ret c s"
    and ok: "\<And>f. bfStep prog c \<noteq> Failed f"
    and noeof: "\<And>c1. bfStep prog c = Running c1 \<Longrightarrow> \<not> stdin_eof c1"
  shows "\<exists>c1 s1. bfStep prog c = Running c1 \<and> x86Steps 5 code tapeAddr ret s = Running s1 \<and>
     program c1 = program c + 1 \<and> nskip c1 = 0 \<and> loops c1 = loops c \<and>
     related tapeAddr ret c1 s1 \<and> rip s1 = rip s + 20"
proof -
  let ?k = "length (takeWhile (\<lambda>y. y = CHR '','') rest)"
  have st: "bfStep prog c = bfExec (CHR '','') ?k c" by (rule bfStep_drop [OF at])
  have ir: "inRange (ptr c)"
    using ok [of TapeOutOfRange] ns unfolding st
    by (auto simp: bfExec_def Let_def split: if_splits)
  note rc = related_cell [OF rel ir]
  show ?thesis
  proof (cases "stdin c")
    case Nil
    then have "bfStep prog c =
        Running (setCell (word_of_int EOF) (c\<lparr>program := program c + 1, stdin := [],
          stdin_eof := True\<rparr>))"
      unfolding st using ns ir by (simp add: bfExec_def Let_def getchar_def)
    from noeof [OF this] show ?thesis by (simp add: setCell_def)
  next
    case (Cons b bs)
    let ?c1 = "setCell b (c\<lparr>program := program c + 1, stdin := bs,
        stdin_eof := (stdin_eof c \<or> uint b = EOF)\<rparr>)"
    have 1: "bfStep prog c = Running ?c1"
      unfolding st using ns ir Cons by (simp add: bfExec_def Let_def getchar_def)
    have "fd0 s = b # bs" using rel Cons by (simp add: related_def)
    from steps_read [OF code rc(1) this, of ret]
    have 2: "x86Steps 5 code tapeAddr ret s =
        Running (s\<lparr>rip := rip s + 20, rax := 1, rdi := 0, rsi := rbx s, rdx := 1, fd0 := bs,
                cells := (cells s)(nat (ptr c) := b)\<rparr>)"
      by (simp only: rc)
    show ?thesis
      using 1 2 rel ns by (auto simp: related_def setCell_def)
  qed
qed

lemma tok_write:
  assumes at: "drop (program c) prog = CHR ''.'' # rest"
    and code: "codeAt code (rip s) writeSyscall"
    and ns: "nskip c = 0" and rel: "related tapeAddr ret c s"
    and ok: "\<And>f. bfStep prog c \<noteq> Failed f"
  shows "\<exists>c1 s1. bfStep prog c = Running c1 \<and> x86Steps 5 code tapeAddr ret s = Running s1 \<and>
     program c1 = program c + 1 \<and> nskip c1 = 0 \<and> loops c1 = loops c \<and>
     related tapeAddr ret c1 s1 \<and> rip s1 = rip s + 20"
proof -
  let ?k = "length (takeWhile (\<lambda>y. y = CHR ''.'') rest)"
  have st: "bfStep prog c = bfExec (CHR ''.'') ?k c" by (rule bfStep_drop [OF at])
  have ir: "inRange (ptr c)"
    using ok [of TapeOutOfRange] ns unfolding st
    by (auto simp: bfExec_def Let_def split: if_splits)
  note rc = related_cell [OF rel ir]
  let ?c1 = "c\<lparr>program := program c + 1, stdout := stdout c @ [cell c]\<rparr>"
  have 1: "bfStep prog c = Running ?c1"
    unfolding st using ns ir by (simp add: bfExec_def Let_def)
  from steps_write [OF code rc(1), of ret]
  have 2: "x86Steps 5 code tapeAddr ret s =
      Running (s\<lparr>rip := rip s + 20, rax := 1, rdi := 1, rsi := rbx s, rdx := 1,
                fd1 := fd1 s @ [cell c]\<rparr>)"
    by (simp only: rc)
  show ?thesis
    using 1 2 rel ns by (auto simp: related_def)
qed

subsection \<open>The brackets in both modes\<close>

lemma jumpBy_forward: "jumpBy (int d) s = Running (s\<lparr>rip := rip s + d\<rparr>)"
  by (simp add: jumpBy_def nat_add_distrib)

lemma jumpBy_backward: "d \<le> rip s \<Longrightarrow> jumpBy (- int d) s = Running (s\<lparr>rip := rip s - d\<rparr>)"
  by (simp add: jumpBy_def nat_diff_distrib')

lemma jumpBy_neg:
  assumes "d \<le> rip s + 6"
  shows "jumpBy (- int d) (s\<lparr>rip := rip s + 6\<rparr>) = Running (s\<lparr>rip := rip s + 6 - d\<rparr>)"
proof -
  have "d \<le> rip (s\<lparr>rip := rip s + 6\<rparr>)" using assms by simp
  from jumpBy_backward [OF this] show ?thesis by simp
qed

lemma step_jne_taken:
  assumes code: "codeAt code (rip s) ([0xf, 0x85] @ resolveAddrDiff (- of_nat d))"
    and z: "\<not> zf s" and d31: "d \<le> 2 ^ 31" and d: "d \<le> rip s + 6"
  shows "x86Step code tapeAddr ret s = Running (s\<lparr>rip := rip s + 6 - d\<rparr>)"
proof -
  have "x86Step code tapeAddr ret s =
      jumpBy (sint (- of_nat d :: 32 word)) (s\<lparr>rip := rip s + 6\<rparr>)"
    using step_jne [OF code, of tapeAddr ret] z by simp
  also have "\<dots> = jumpBy (- int d) (s\<lparr>rip := rip s + 6\<rparr>)"
    by (simp only: sint_rel32_neg [OF d31])
  also have "\<dots> = Running (s\<lparr>rip := rip s + 6 - d\<rparr>)"
    by (rule jumpBy_neg [OF d])
  finally show ?thesis .
qed

lemma codeAt_split3:
  assumes "codeAt code off ([a, b, c] @ ys)"
  shows "codeAt code off [a, b, c]" and "codeAt code (off + 3) ys"
  using assms codeAt_append [of code off "[a, b, c]" ys]
  by (simp_all add: numeral_3_eq_3)

lemma tok_open:
  assumes at: "drop (program c) prog = CHR ''['' # rest"
    and code: "codeAt code (rip s)
        ([0x80, 0x3b, 0x0, 0xf, 0x84] @ resolveAddrDiff (of_nat (n + 9)))"
    and ns: "nskip c = 0" and rel: "related tapeAddr ret c s"
    and ok: "\<And>f. bfStep prog c \<noteq> Failed f"
    and n31: "n + 9 < 2 ^ 31"
  shows "\<exists>s1. bfStep prog c =
       Running (c\<lparr>program := program c + 1, loops := (program c + 1) # loops c,
                  nskip := (if cell c = 0 then 1 else 0)\<rparr>) \<and>
     x86Steps 2 code tapeAddr ret s = Running s1 \<and> inRange (ptr c) \<and>
     related tapeAddr ret c s1 \<and>
     rip s1 = (if cell c = 0 then rip s + 9 + n + 9 else rip s + 9)"
proof -
  let ?k = "length (takeWhile (\<lambda>y. y = CHR ''['') rest)"
  have st: "bfStep prog c = bfExec (CHR ''['') ?k c" by (rule bfStep_drop [OF at])
  have ir: "inRange (ptr c)" and dp: "length (loops c) \<noteq> MAX_NESTING"
    using ok [of TapeOutOfRange] ok [of Terminate] unfolding st
    by (auto simp: bfExec_def Let_def split: if_splits)
  note rc = related_cell [OF rel ir]
  have 1: "bfStep prog c =
       Running (c\<lparr>program := program c + 1, loops := (program c + 1) # loops c,
                  nskip := (if cell c = 0 then 1 else 0)\<rparr>)"
    unfolding st using ns ir dp by (simp add: bfExec_def Let_def)
  have c1: "codeAt code (rip s) [0x80, 0x3b, 0x0]"
    and c2: "codeAt code (rip s + 3) ([0xf, 0x84] @ resolveAddrDiff (of_nat (n + 9)))"
    using codeAt_split3 [of code "rip s" "0x80" "0x3b" "0x0"
        "[0xf, 0x84] @ resolveAddrDiff (of_nat (n + 9))"] code
    by simp_all
  let ?s1 = "s\<lparr>rip := rip s + 3, zf := (cell c = 0)\<rparr>"
  from step_cmpb [OF c1 rc(1), of ret]
  have 2: "x86Step code tapeAddr ret s = Running ?s1"
    by (simp only: rc)
  have c2': "codeAt code (rip ?s1) ([0xf, 0x84] @ resolveAddrDiff (of_nat (n + 9)))"
    using c2 by simp
  have sd: "sint (of_nat (n + 9) :: 32 word) = int (n + 9)"
    using n31 by (rule sint_rel32_pos)
  let ?s2 = "?s1\<lparr>rip := (if cell c = 0 then rip s + 9 + n + 9 else rip s + 9)\<rparr>"
  have 3: "x86Step code tapeAddr ret ?s1 = Running ?s2"
    unfolding step_je [OF c2'] sd jumpBy_forward by simp
  have "x86Steps (1 + 1) code tapeAddr ret s = Running ?s2"
    by (rule x86Steps_trans [OF x86Steps_one [OF 2] x86Steps_one [OF 3]])
  moreover have "(1 + 1 :: nat) = 2" by simp
  ultimately have 4: "x86Steps 2 code tapeAddr ret s = Running ?s2" by (simp only:)
  have "related tapeAddr ret c ?s2" using rel by (simp add: related_def)
  then show ?thesis using 1 4 ir by (intro exI [of _ ?s2]) simp
qed

lemma tok_close:
  assumes at: "drop (program c) prog = CHR '']'' # rest"
    and code: "codeAt code (rip s)
        ([0x80, 0x3b, 0x0, 0xf, 0x85] @ resolveAddrDiff (- of_nat (n + 9)))"
    and ns: "nskip c = 0" and rel: "related tapeAddr ret c s"
    and ok: "\<And>f. bfStep prog c \<noteq> Failed f"
    and lp: "loops c = e # L"
    and n31: "n + 9 < 2 ^ 31" and nb: "n \<le> rip s"
  shows "\<exists>s1. bfStep prog c =
       Running (if cell c = 0 then c\<lparr>program := program c + 1, loops := L\<rparr>
                else c\<lparr>program := e\<rparr>) \<and>
     x86Steps 2 code tapeAddr ret s = Running s1 \<and> inRange (ptr c) \<and>
     related tapeAddr ret c s1 \<and>
     rip s1 = (if cell c = 0 then rip s + 9 else rip s - n)"
proof -
  let ?k = "length (takeWhile (\<lambda>y. y = CHR '']'') rest)"
  have st: "bfStep prog c = bfExec (CHR '']'') ?k c" by (rule bfStep_drop [OF at])
  have ir: "inRange (ptr c)"
    using ok [of TapeOutOfRange] lp unfolding st
    by (auto simp: bfExec_def Let_def split: if_splits)
  note rc = related_cell [OF rel ir]
  have 1: "bfStep prog c =
       Running (if cell c = 0 then c\<lparr>program := program c + 1, loops := L\<rparr>
                else c\<lparr>program := e\<rparr>)"
    unfolding st using ns ir lp by (cases c) (simp add: bfExec_def Let_def)
  have c1: "codeAt code (rip s) [0x80, 0x3b, 0x0]"
    and c2: "codeAt code (rip s + 3) ([0xf, 0x85] @ resolveAddrDiff (- of_nat (n + 9)))"
    using codeAt_split3 [of code "rip s" "0x80" "0x3b" "0x0"
        "[0xf, 0x85] @ resolveAddrDiff (- of_nat (n + 9))"] code
    by simp_all
  let ?s1 = "s\<lparr>rip := rip s + 3, zf := (cell c = 0)\<rparr>"
  from step_cmpb [OF c1 rc(1), of ret]
  have 2: "x86Step code tapeAddr ret s = Running ?s1"
    by (simp only: rc)
  have c2': "codeAt code (rip ?s1) ([0xf, 0x85] @ resolveAddrDiff (- of_nat (n + 9)))"
    using c2 by simp
  have sd: "sint (- of_nat (n + 9) :: 32 word) = - int (n + 9)"
    using n31 by (intro sint_rel32_neg) simp
  let ?s2 = "?s1\<lparr>rip := (if cell c = 0 then rip s + 9 else rip s - n)\<rparr>"
  have 3: "x86Step code tapeAddr ret ?s1 = Running ?s2"
  proof (cases "cell c = 0")
    case True
    then show ?thesis unfolding step_jne [OF c2'] by simp
  next
    case False
    have "x86Step code tapeAddr ret ?s1 = Running (?s1\<lparr>rip := rip ?s1 + 6 - (n + 9)\<rparr>)"
      using False nb n31 by (intro step_jne_taken [OF c2']) simp_all
    then show ?thesis using False by simp
  qed
  have "x86Steps (1 + 1) code tapeAddr ret s = Running ?s2"
    by (rule x86Steps_trans [OF x86Steps_one [OF 2] x86Steps_one [OF 3]])
  moreover have "(1 + 1 :: nat) = 2" by simp
  ultimately have 4: "x86Steps 2 code tapeAddr ret s = Running ?s2" by (simp only:)
  have "related tapeAddr ret c ?s2" using rel by (simp add: related_def)
  then show ?thesis using 1 4 ir by (intro exI [of _ ?s2]) simp
qed

lemma tok_close_elided:
  assumes at: "drop (program c) prog = CHR '']'' # rest"
    and ns: "nskip c = 0" and z: "cell c = 0"
    and ok: "\<And>f. bfStep prog c \<noteq> Failed f"
    and lp: "loops c = e # L"
  shows "bfStep prog c = Running (c\<lparr>program := program c + 1, loops := L\<rparr>)"
proof -
  let ?k = "length (takeWhile (\<lambda>y. y = CHR '']'') rest)"
  have st: "bfStep prog c = bfExec (CHR '']'') ?k c" by (rule bfStep_drop [OF at])
  have ir: "inRange (ptr c)"
    using ok [of TapeOutOfRange] lp unfolding st
    by (auto simp: bfExec_def Let_def split: if_splits)
  show ?thesis
    unfolding st using ns ir lp z by (cases c) (simp add: bfExec_def Let_def)
qed

lemma step_skip_closers:
  assumes code: "codeAt code (rip s) [0xeb, of_nat (k * 11 - 2)]"
    and k: "0 < k" "k \<le> 11"
  shows "x86Step code tapeAddr ret s = Running (s\<lparr>rip := rip s + 11 * k\<rparr>)"
proof -
  have "k * 11 - 2 < 2 ^ 7" using k by simp
  then have "sint (of_nat (k * 11 - 2) :: 8 word) = int (k * 11 - 2)"
    by (rule sint_rel8_pos)
  then show ?thesis
    unfolding step_jmp [OF code] using k by (simp add: jumpBy_forward del: of_nat_diff)
qed

subsection \<open>A loop in both modes\<close>

lemma related_same:
  assumes "related tapeAddr ret c s" and "tape c' = tape c" and "ptr c' = ptr c"
    and "stdin c' = stdin c" and "stdout c' = stdout c"
  shows "related tapeAddr ret c' s"
  using assms by (simp add: related_def)

lemma seg_advance:
  assumes "bfSteps m prog c = Running c1" and "x86Steps j code tapeAddr ret s = Running s1"
    and "loops c1 = loops c"
    and "segDone prog code tapeAddr ret la c1 s1 (program c1 + tr) (rip s1 + cr)"
    and "program c1 = program c + t1" and "rip s1 = rip s + k1"
  shows "segDone prog code tapeAddr ret la c s (program c + (t1 + tr)) (rip s + (k1 + cr))"
proof -
  have "segDone prog code tapeAddr ret la c1 s1 (program c + (t1 + tr)) (rip s + (k1 + cr))"
    using assms(4) by (simp add: assms(5,6) add.assoc)
  then show ?thesis by (rule segDone_trans [OF assms(1,2,3)])
qed

lemma loop_iter:
  assumes body: "\<And>c s. program c = p1 \<Longrightarrow> rip s = q1 \<Longrightarrow> nskip c = 0 \<Longrightarrow>
        related tapeAddr ret c s \<Longrightarrow> completes prog c cf \<Longrightarrow>
        segDone prog code tapeAddr ret (Suc k) c s (p1 + length b) (q1 + n)"
    and close: "drop (p1 + length b) prog = CHR '']'' # rest"
    and cX: "codeAt code (q1 + n)
        ([0x80, 0x3b, 0x0, 0xf, 0x85] @ resolveAddrDiff (- of_nat (n + 9)))"
    and n31: "n + 9 < 2 ^ 31"
  shows "program c = p1 \<Longrightarrow> rip s = q1 \<Longrightarrow> loops c = p1 # L \<Longrightarrow> nskip c = 0 \<Longrightarrow>
     related tapeAddr ret c s \<Longrightarrow> bfInterpret fuel prog c = Some (Returned cf) \<Longrightarrow>
     \<not> stdin_eof cf \<Longrightarrow>
     \<exists>m c' j s'. bfSteps m prog c = Running c' \<and> x86Steps j code tapeAddr ret s = Running s' \<and>
        program c' = p1 + length b + 1 \<and> loops c' = L \<and> nskip c' = 0 \<and> cell c' = 0 \<and>
        related tapeAddr ret c' s' \<and>
        (rip s' = q1 + n + 9 \<or> rip s' = q1 + n + 9 + 11 * k)"
proof (induction fuel arbitrary: c s rule: less_induct)
  case (less fuel)
  have comp: "completes prog c cf" using less.prems(6,7) unfolding completes_def by blast
  from body [OF less.prems(1,2,4,5) comp]
  obtain m1 c2 j1 s2 where
    1: "bfSteps m1 prog c = Running c2" and 2: "x86Steps j1 code tapeAddr ret s = Running s2"
    and c2: "program c2 = p1 + length b" "nskip c2 = 0" "loops c2 = loops c"
      "related tapeAddr ret c2 s2"
    and ex: "rip s2 = q1 + n \<or> (cell c2 = 0 \<and> rip s2 = q1 + n + 11 * Suc k - 2)"
    unfolding segDone_def by blast
  from bfInterpret_steps [OF 1 less.prems(6)]
  have f2: "m1 < fuel" "bfInterpret (fuel - m1) prog c2 = Some (Returned cf)" by simp_all
  have comp2: "completes prog c2 cf" by (rule completes_steps [OF comp 1])
  have at2: "drop (program c2) prog = CHR '']'' # rest" using close c2(1) by simp
  have lp2: "loops c2 = p1 # L" using c2(3) less.prems(3) by simp
  have ok2: "\<And>f. bfStep prog c2 \<noteq> Failed f" by (rule completes_not_failed [OF comp2])
  from ex show ?case
  proof
    assume e: "cell c2 = 0 \<and> rip s2 = q1 + n + 11 * Suc k - 2"
    let ?c3 = "c2\<lparr>program := program c2 + 1, loops := L\<rparr>"
    have 3: "bfStep prog c2 = Running ?c3"
      using e by (intro tok_close_elided [OF at2 c2(2) _ ok2 lp2]) simp
    have "bfSteps (m1 + 1) prog c = Running ?c3"
      by (rule bfSteps_trans [OF 1 bfSteps_one [OF 3]])
    moreover have "related tapeAddr ret ?c3 s2" by (rule related_same [OF c2(4)]) simp_all
    moreover have "cell ?c3 = 0" using e by (simp add: cell_def)
    moreover have "rip s2 = q1 + n + 9 + 11 * k" using e by simp
    moreover have "program ?c3 = p1 + length b + 1" "loops ?c3 = L" "nskip ?c3 = 0"
      using c2 by simp_all
    ultimately show ?thesis using 2 by blast
  next
    assume e: "rip s2 = q1 + n"
    have cX2: "codeAt code (rip s2)
        ([0x80, 0x3b, 0x0, 0xf, 0x85] @ resolveAddrDiff (- of_nat (n + 9)))"
      using cX e by simp
    have "n \<le> rip s2" using e by simp
    from tok_close [OF at2 cX2 c2(2,4) ok2 lp2 n31 this]
    obtain s3 where
      3: "bfStep prog c2 =
          Running (if cell c2 = 0 then c2\<lparr>program := program c2 + 1, loops := L\<rparr>
                   else c2\<lparr>program := p1\<rparr>)"
      and 4: "x86Steps 2 code tapeAddr ret s2 = Running s3"
      and r3: "related tapeAddr ret c2 s3"
      and p3: "rip s3 = (if cell c2 = 0 then rip s2 + 9 else rip s2 - n)"
      by blast
    have j: "x86Steps (j1 + 2) code tapeAddr ret s = Running s3"
      by (rule x86Steps_trans [OF 2 4])
    show ?thesis
    proof (cases "cell c2 = 0")
      case True
      let ?c3 = "c2\<lparr>program := program c2 + 1, loops := L\<rparr>"
      have "bfSteps (m1 + 1) prog c = Running ?c3"
        using 3 True by (intro bfSteps_trans [OF 1 bfSteps_one]) simp
      moreover have "related tapeAddr ret ?c3 s3" by (rule related_same [OF r3]) simp_all
      moreover have "cell ?c3 = 0" using True by (simp add: cell_def)
      moreover have "rip s3 = q1 + n + 9" using p3 True e by simp
      moreover have "program ?c3 = p1 + length b + 1" "loops ?c3 = L" "nskip ?c3 = 0"
        using c2 by simp_all
      ultimately show ?thesis using j by blast
    next
      case False
      let ?c3 = "c2\<lparr>program := p1\<rparr>"
      have 5: "bfStep prog c2 = Running ?c3" using 3 False by simp
      have m: "bfSteps (m1 + 1) prog c = Running ?c3"
        by (rule bfSteps_trans [OF 1 bfSteps_one [OF 5]])
      from bfInterpret_step [OF f2(2) 5]
      have f3: "bfInterpret (fuel - m1 - 1) prog ?c3 = Some (Returned cf)" by simp
      have lt: "fuel - m1 - 1 < fuel" using f2(1) by simp
      have r: "related tapeAddr ret ?c3 s3" by (rule related_same [OF r3]) simp_all
      have "rip s3 = q1" using p3 False e by simp
      from less.IH [OF lt _ this _ _ r f3 less.prems(7)] lp2 c2(2)
      obtain m' c' j' s' where
        6: "bfSteps m' prog ?c3 = Running c'" and 7: "x86Steps j' code tapeAddr ret s3 = Running s'"
        and 8: "program c' = p1 + length b + 1" "loops c' = L" "nskip c' = 0" "cell c' = 0"
          "related tapeAddr ret c' s'"
          "rip s' = q1 + n + 9 \<or> rip s' = q1 + n + 9 + 11 * k"
        by auto
      have "bfSteps (m1 + 1 + m') prog c = Running c'" by (rule bfSteps_trans [OF m 6])
      moreover have "x86Steps (j1 + 2 + j') code tapeAddr ret s = Running s'"
        by (rule x86Steps_trans [OF j 7])
      ultimately show ?thesis using 8 by blast
    qed
  qed
qed

subsection \<open>A well-nested text in both modes\<close>

lemma seg_token:
  assumes "bfStep prog c = Running c1" and "x86Steps j code tapeAddr ret s = Running s1"
    and "loops c1 = loops c"
    and "segDone prog code tapeAddr ret la c1 s1 (program c1 + tr) (rip s1 + cr)"
    and "program c1 = program c + t1" and "rip s1 = rip s + k1"
  shows "segDone prog code tapeAddr ret la c s (program c + (t1 + tr)) (rip s + (k1 + cr))"
  by (rule seg_advance [OF bfSteps_one [OF assms(1)] assms(2-6)])

lemma loop_code_parts:
  assumes "codeAt code off (o5 @ f4 @ B @ x5 @ b4 @ E @ C)"
    and "length o5 = 5" and "length f4 = 4" and "length x5 = 5" and "length b4 = 4"
  shows "codeAt code off (o5 @ f4)" and "codeAt code (off + 9) B"
    and "codeAt code (off + 9 + length B) (x5 @ b4)"
    and "codeAt code (off + length B + 18) E"
    and "codeAt code (off + length B + 18 + length E) C"
proof -
  have 1: "codeAt code off ((o5 @ f4) @ B @ (x5 @ b4) @ E @ C)" using assms(1) by simp
  then show a: "codeAt code off (o5 @ f4)" unfolding codeAt_append [of code off "o5 @ f4"] by simp
  have 2: "codeAt code (off + 9) (B @ (x5 @ b4) @ E @ C)"
    using 1 assms(2,3) unfolding codeAt_append [of code off "o5 @ f4"] by simp
  then show "codeAt code (off + 9) B" unfolding codeAt_append [of code "off + 9" B] by simp
  have 3: "codeAt code (off + 9 + length B) ((x5 @ b4) @ E @ C)"
    using 2 unfolding codeAt_append [of code "off + 9" B] by simp
  then show "codeAt code (off + 9 + length B) (x5 @ b4)"
    unfolding codeAt_append [of code "off + 9 + length B" "x5 @ b4"] by simp
  have "codeAt code (off + 9 + length B + 9) (E @ C)"
    using 3 assms(4,5) unfolding codeAt_append [of code "off + 9 + length B" "x5 @ b4"] by simp
  moreover have "off + 9 + length B + 9 = off + length B + 18" by simp
  ultimately have 4: "codeAt code (off + length B + 18) (E @ C)" by simp
  then show "codeAt code (off + length B + 18) E"
    and "codeAt code (off + length B + 18 + length E) C"
    unfolding codeAt_append [of code "off + length B + 18" E] by simp_all
qed

lemma related_rip:
  "related tapeAddr ret c s \<Longrightarrow> related tapeAddr ret c (s\<lparr>rip := v\<rparr>)"
  by (simp add: related_def)

lemma length_runOp: "length (runOp ch) = (if ch = CHR ''+'' \<or> ch = CHR ''-'' then 2 else 3)"
  by (simp add: runOp_def)

lemma tok_run:
  assumes at: "drop (program c) prog = replicate (Suc m) ch @ rest"
    and b: "rest = [] \<or> hd rest \<noteq> ch"
    and ch: "isRun ch"
    and code: "codeAt code (rip s) (runOp ch @ [of_nat (Suc m)])"
    and ns: "nskip c = 0" and rel: "related tapeAddr ret c s"
    and ok: "\<And>f. bfStep prog c \<noteq> Failed f"
    and f: "faithful prog"
  shows "\<exists>c1 s1. bfStep prog c = Running c1 \<and> x86Steps 1 code tapeAddr ret s = Running s1 \<and>
     program c1 = program c + Suc m \<and> nskip c1 = 0 \<and> loops c1 = loops c \<and>
     related tapeAddr ret c1 s1 \<and> rip s1 = rip s + (length (runOp ch) + 1)"
proof -
  have le: "Suc m \<le> longestRun ch prog" by (rule longestRun_at [OF at])
  from ch consider "ch = CHR ''+'' \<or> ch = CHR ''-''" | "ch = CHR ''>'' \<or> ch = CHR ''<''"
    by (rule isRun_cases) auto
  then show ?thesis
  proof cases
    case 1
    from tok_cell_run [OF at b 1 code ns rel ok] obtain c1 s1 where
      "bfStep prog c = Running c1" "x86Step code tapeAddr ret s = Running s1"
      "program c1 = program c + Suc m" "nskip c1 = 0" "loops c1 = loops c"
      "related tapeAddr ret c1 s1" "rip s1 = rip s + 3" by blast
    moreover have "length (runOp ch) + 1 = 3" using 1 by (auto simp: length_runOp)
    ultimately show ?thesis using x86Steps_one [of code tapeAddr ret s "Running s1"]
      by (simp only:) blast
  next
    case 2
    have "Suc m \<le> 127" using le f 2 unfolding faithful_def by auto
    from tok_move_run [OF at b 2 code ns rel this] obtain c1 s1 where
      "bfStep prog c = Running c1" "x86Step code tapeAddr ret s = Running s1"
      "program c1 = program c + Suc m" "nskip c1 = 0" "loops c1 = loops c"
      "related tapeAddr ret c1 s1" "rip s1 = rip s + 4" by blast
    moreover have "length (runOp ch) + 1 = 4" using 2 by (auto simp: length_runOp)
    ultimately show ?thesis using x86Steps_one [of code tapeAddr ret s "Running s1"]
      by (simp only:) blast
  qed
qed

lemma seg_sim:
  assumes "emits la xs C"
  shows "drop (program c) prog = xs @ tpost \<Longrightarrow> follows la tpost \<Longrightarrow>
     codeAt code (rip s) C \<Longrightarrow> faithful prog \<Longrightarrow> length code < 2 ^ 31 \<Longrightarrow> nskip c = 0 \<Longrightarrow>
     related tapeAddr ret c s \<Longrightarrow> completes prog c cf \<Longrightarrow> NUL \<notin> set xs \<Longrightarrow>
     segDone prog code tapeAddr ret la c s (program c + length xs) (rip s + length C)"
  using assms
proof (induction arbitrary: c s tpost rule: emits.induct)
  case (Empty la)
  show ?case using Empty.prems(6,7) by (intro segDone_here) simp_all
next
  case (Run ch r la C m0)
  have at: "drop (program c) prog = replicate (Suc m0) ch @ (r @ tpost)"
    using Run.prems(1) by simp
  have b: "r @ tpost = [] \<or> hd (r @ tpost) \<noteq> ch"
    using run_boundary [OF _ Run.hyps(2) Run.prems(2)] Run.hyps(1) by simp
  have cT: "codeAt code (rip s) (runOp ch @ [of_nat (Suc m0)])"
    and cC: "codeAt code (rip s + (length (runOp ch) + 1)) C"
    using Run.prems(3) codeAt_append [of code "rip s" "runOp ch @ [of_nat (Suc m0)]" C]
    by simp_all
  have ok: "\<And>f. bfStep prog c \<noteq> Failed f" by (rule completes_not_failed [OF Run.prems(8)])
  from tok_run [OF at b Run.hyps(1) cT Run.prems(6,7) ok Run.prems(4)]
  obtain c1 s1 where 1: "bfStep prog c = Running c1"
    and 2: "x86Steps 1 code tapeAddr ret s = Running s1"
    and p: "program c1 = program c + Suc m0" "nskip c1 = 0" "loops c1 = loops c"
      "related tapeAddr ret c1 s1" "rip s1 = rip s + (length (runOp ch) + 1)"
    by blast
  have d: "drop (program c1) prog = r @ tpost"
    using fetch_offset [OF at, of "Suc m0"] p(1) by simp
  have cC1: "codeAt code (rip s1) C" using cC p(5) by simp
  have f: "completes prog c1 cf" by (rule completes_step [OF Run.prems(8) 1])
  have nr: "NUL \<notin> set r" using Run.prems(9) by simp
  from seg_token [OF 1 2 p(3) Run.IH [OF d Run.prems(2) cC1 Run.prems(4,5) p(2,4) f nr] p(1,5)]
  show ?case by (simp add: add.assoc)
next
  case (Read la r C)
  have at: "drop (program c) prog = CHR '','' # (r @ tpost)" using Read.prems(1) by simp
  have l: "length readSyscall = 20" by (simp add: readSyscall_def)
  have cT: "codeAt code (rip s) readSyscall" and cC: "codeAt code (rip s + 20) C"
    using Read.prems(3) unfolding codeAt_append [of code "rip s" readSyscall C] l by blast+
  have ok: "\<And>f. bfStep prog c \<noteq> Failed f" by (rule completes_not_failed [OF Read.prems(8)])
  have ne: "\<And>c1. bfStep prog c = Running c1 \<Longrightarrow> \<not> stdin_eof c1"
    by (rule completes_no_eof [OF completes_step [OF Read.prems(8)]])
  from tok_read [OF at cT Read.prems(6,7) ok ne]
  obtain c1 s1 where 1: "bfStep prog c = Running c1"
    and 2: "x86Steps 5 code tapeAddr ret s = Running s1"
    and p: "program c1 = program c + 1" "nskip c1 = 0" "loops c1 = loops c"
      "related tapeAddr ret c1 s1" "rip s1 = rip s + 20"
    by blast
  have d: "drop (program c1) prog = r @ tpost"
    using fetch_offset [OF at, of 1] p(1) by simp
  have cC1: "codeAt code (rip s1) C" using cC p(5) by simp
  have f: "completes prog c1 cf" by (rule completes_step [OF Read.prems(8) 1])
  have nr: "NUL \<notin> set r" using Read.prems(9) by simp
  from seg_token [OF 1 2 p(3) Read.IH [OF d Read.prems(2) cC1 Read.prems(4,5) p(2,4) f nr] p(1,5)]
  show ?case by (simp add: add.assoc l)
next
  case (Write la r C)
  have at: "drop (program c) prog = CHR ''.'' # (r @ tpost)" using Write.prems(1) by simp
  have l: "length writeSyscall = 20" by (simp add: writeSyscall_def)
  have cT: "codeAt code (rip s) writeSyscall" and cC: "codeAt code (rip s + 20) C"
    using Write.prems(3) unfolding codeAt_append [of code "rip s" writeSyscall C] l by blast+
  have ok: "\<And>f. bfStep prog c \<noteq> Failed f" by (rule completes_not_failed [OF Write.prems(8)])
  from tok_write [OF at cT Write.prems(6,7) ok]
  obtain c1 s1 where 1: "bfStep prog c = Running c1"
    and 2: "x86Steps 5 code tapeAddr ret s = Running s1"
    and p: "program c1 = program c + 1" "nskip c1 = 0" "loops c1 = loops c"
      "related tapeAddr ret c1 s1" "rip s1 = rip s + 20"
    by blast
  have d: "drop (program c1) prog = r @ tpost"
    using fetch_offset [OF at, of 1] p(1) by simp
  have cC1: "codeAt code (rip s1) C" using cC p(5) by simp
  have f: "completes prog c1 cf" by (rule completes_step [OF Write.prems(8) 1])
  have nr: "NUL \<notin> set r" using Write.prems(9) by simp
  from seg_token [OF 1 2 p(3) Write.IH [OF d Write.prems(2) cC1 Write.prems(4,5) p(2,4) f nr] p(1,5)]
  show ?case by (simp add: add.assoc l)
next
  case (Spaces r la C m0)
  let ?c1 = "c\<lparr>program := program c + Suc m0\<rparr>"
  have at: "drop (program c) prog = replicate (Suc m0) (CHR '' '') @ (r @ tpost)"
    using Spaces.prems(1) by simp
  have b: "r @ tpost = [] \<or> hd (r @ tpost) \<noteq> CHR '' ''"
    using run_boundary [OF _ Spaces.hyps(1) Spaces.prems(2)] by simp
  have 1: "bfStep prog c = Running ?c1"
    unfolding bfStep_run [OF at b] by (simp add: bfExec_def Let_def)
  have 2: "x86Steps 0 code tapeAddr ret s = Running s" by simp
  have d: "drop (program ?c1) prog = r @ tpost"
    using fetch_offset [OF at, of "Suc m0"] by simp
  have f: "completes prog ?c1 cf" by (rule completes_step [OF Spaces.prems(8) 1])
  have ns: "nskip ?c1 = 0" using Spaces.prems(6) by simp
  have rel: "related tapeAddr ret ?c1 s" by (rule related_same [OF Spaces.prems(7)]) simp_all
  have cC: "codeAt code (rip s) C" by (rule Spaces.prems(3))
  have "segDone prog code tapeAddr ret la ?c1 s (program ?c1 + length r) (rip s + length C)"
    using Spaces.prems(9) by (intro Spaces.IH [OF d Spaces.prems(2) cC Spaces.prems(4,5) ns rel f]) simp
  then have "segDone prog code tapeAddr ret la c s (program ?c1 + length r) (rip s + length C)"
    by (intro segDone_trans [OF bfSteps_one [OF 1] 2]) simp_all
  then show ?case by (simp add: add.assoc)
next
  case (Other ch la r C)
  let ?c1 = "c\<lparr>program := program c + 1\<rparr>"
  have at: "drop (program c) prog = ch # (r @ tpost)" using Other.prems(1) by simp
  have nn: "ch \<noteq> NUL" using Other.prems(9) by auto
  have 1: "bfStep prog c = Running ?c1"
    unfolding bfStep_drop [OF at]
    using Other.hyps(1,2) nn by (simp add: bfExec_def Let_def isInstr_def isRun_def)
  have 2: "x86Steps 0 code tapeAddr ret s = Running s" by simp
  have d: "drop (program ?c1) prog = r @ tpost"
    using fetch_offset [OF at, of 1] by simp
  have f: "completes prog ?c1 cf" by (rule completes_step [OF Other.prems(8) 1])
  have ns: "nskip ?c1 = 0" using Other.prems(6) by simp
  have rel: "related tapeAddr ret ?c1 s" by (rule related_same [OF Other.prems(7)]) simp_all
  have cC: "codeAt code (rip s) C" by (rule Other.prems(3))
  have "segDone prog code tapeAddr ret la ?c1 s (program ?c1 + length r) (rip s + length C)"
    using Other.prems(9) by (intro Other.IH [OF d Other.prems(2) cC Other.prems(4,5) ns rel f]) simp
  then have "segDone prog code tapeAddr ret la c s (program ?c1 + length r) (rip s + length C)"
    by (intro segDone_trans [OF bfSteps_one [OF 1] 2]) simp_all
  then show ?case by (simp add: add.assoc)
next
  case (Loop k b B la r C)
  let ?n = "length B"
  let ?E = "(if k > 0 then [0xeb, of_nat (k * 11 - 2)] else []) :: 8 word list"
  let ?c1 = "c\<lparr>program := program c + 1, loops := (program c + 1) # loops c,
      nskip := (if cell c = 0 then 1 else 0)\<rparr>"
  have at: "drop (program c) prog = CHR ''['' # (b @ CHR '']'' # r @ tpost)"
    using Loop.prems(1) by simp
  have nb: "NUL \<notin> set b" and nr: "NUL \<notin> set r" using Loop.prems(9) by simp_all
  note parts = loop_code_parts [OF Loop.prems(3), simplified]
  have cO: "codeAt code (rip s)
      ([0x80, 0x3b, 0x0, 0xf, 0x84] @ resolveAddrDiff (of_nat (?n + 9)))"
    using parts(1) by simp
  have cB: "codeAt code (rip s + 9) B" using parts(2) by simp
  have cX: "codeAt code (rip s + 9 + ?n)
      ([0x80, 0x3b, 0x0, 0xf, 0x85] @ resolveAddrDiff (- of_nat (?n + 9)))"
    using parts(3) by simp
  have cE: "codeAt code (rip s + ?n + 18) ?E" using parts(4) by simp
  have cC: "codeAt code (rip s + ?n + 18 + length ?E) C" using parts(5) by simp
  have "rip s + length ([0x80, 0x3b, 0x0, 0xf, 0x84] @ resolveAddrDiff (of_nat (?n + 9)) @ B @
           [0x80, 0x3b, 0x0, 0xf, 0x85] @ resolveAddrDiff (- of_nat (?n + 9)) @ ?E @ C)
      \<le> length code"
    by (rule codeAt_length [OF Loop.prems(3)]) simp
  then have "?n + 18 \<le> length code" by simp
  then have n31: "?n + 9 < 2 ^ 31" using Loop.prems(5) by simp
  have fl: "follows (Suc k) (CHR '']'' # r @ tpost)"
    using follows_loop [OF Loop.hyps(2) Loop.prems(2)] Loop.hyps(3) by simp
  have ok: "\<And>f. bfStep prog c \<noteq> Failed f" by (rule completes_not_failed [OF Loop.prems(8)])
  from tok_open [OF at cO Loop.prems(6,7) ok n31]
  obtain s1 where 1: "bfStep prog c = Running ?c1"
    and 2: "x86Steps 2 code tapeAddr ret s = Running s1"
    and ir: "inRange (ptr c)" and rel1: "related tapeAddr ret c s1"
    and p1: "rip s1 = (if cell c = 0 then rip s + 9 + ?n + 9 else rip s + 9)"
    by blast
  have f1: "completes prog ?c1 cf" by (rule completes_step [OF Loop.prems(8) 1])
  have d1: "drop (program c + 1) prog = b @ CHR '']'' # r @ tpost"
    using fetch_offset [OF at, of 1] by simp
  have d2: "drop (program c + 1 + length b) prog = CHR '']'' # (r @ tpost)"
    using fetch_offset [OF d1, of "length b"] by (simp add: add.commute)
  have d3: "drop (program c + length b + 2) prog = r @ tpost"
    using fetch_offset [OF d2, of 1] by (simp add: add.commute add.left_commute)
  have "\<exists>m c3 j s3. bfSteps m prog c = Running c3 \<and>
      x86Steps j code tapeAddr ret s = Running s3 \<and>
      program c3 = program c + length b + 2 \<and> loops c3 = loops c \<and> nskip c3 = 0 \<and>
      cell c3 = 0 \<and> related tapeAddr ret c3 s3 \<and>
      (rip s3 = rip s + ?n + 18 \<or> rip s3 = rip s + ?n + 18 + 11 * k)"
  proof (cases "cell c = 0")
    case True
    let ?c2 = "?c1\<lparr>program := program ?c1 + length b\<rparr>"
    let ?c3 = "c\<lparr>program := program c + length b + 2\<rparr>"
    have e1: "drop (program ?c1) prog = b @ CHR '']'' # r @ tpost" using d1 by simp
    have "\<exists>m. bfSteps m prog ?c1 = Running ?c2"
      by (rule skip_body [OF Loop.hyps(1) e1 fl nb _ _ _ f1])
        (use True ir in \<open>simp_all add: cell_def\<close>)
    then obtain m1 where 3: "bfSteps m1 prog ?c1 = Running ?c2" by blast
    have e2: "drop (program ?c2) prog = CHR '']'' # (r @ tpost)" using d2 by simp
    have 4: "bfStep prog ?c2 = Running ?c3"
      unfolding bfStep_drop [OF e2]
      using True ir Loop.prems(6) by (simp add: bfExec_def Let_def cell_def)
    have "bfSteps (1 + m1 + 1) prog c = Running ?c3"
      by (rule bfSteps_trans [OF bfSteps_trans [OF bfSteps_one [OF 1] 3] bfSteps_one [OF 4]])
    moreover have "related tapeAddr ret ?c3 s1" by (rule related_same [OF rel1]) simp_all
    moreover have "cell ?c3 = 0" using True by (simp add: cell_def)
    moreover have "program ?c3 = program c + length b + 2" "loops ?c3 = loops c"
      "nskip ?c3 = 0" using Loop.prems(6) by simp_all
    moreover have "rip s1 = rip s + ?n + 18" using p1 True by simp
    ultimately show ?thesis using 2 by blast
  next
    case False
    let ?p = "program c + 1"
    let ?q = "rip s + 9"
    have body: "segDone prog code tapeAddr ret (Suc k) c' s' (?p + length b) (?q + ?n)"
      if "program c' = ?p" "rip s' = ?q" "nskip c' = 0" "related tapeAddr ret c' s'"
        "completes prog c' cf" for c' s'
    proof -
      have e1: "drop (program c') prog = b @ CHR '']'' # r @ tpost" using d1 that(1) by simp
      have e2: "codeAt code (rip s') B" using cB that(2) by simp
      from Loop.IH(1) [OF e1 fl e2 Loop.prems(4,5) that(3,4,5) nb]
      show ?thesis using that(1,2) by simp
    qed
    obtain fuel where fu: "bfInterpret fuel prog ?c1 = Some (Returned cf)"
      and ne: "\<not> stdin_eof cf"
      using f1 unfolding completes_def by blast
    have rel: "related tapeAddr ret ?c1 s1" by (rule related_same [OF rel1]) simp_all
    have "\<exists>m c' j s'. bfSteps m prog ?c1 = Running c' \<and>
        x86Steps j code tapeAddr ret s1 = Running s' \<and>
        program c' = ?p + length b + 1 \<and> loops c' = loops c \<and> nskip c' = 0 \<and> cell c' = 0 \<and>
        related tapeAddr ret c' s' \<and>
        (rip s' = ?q + ?n + 9 \<or> rip s' = ?q + ?n + 9 + 11 * k)"
      by (rule loop_iter [OF body d2 cX n31 _ _ _ _ rel fu ne])
        (use False p1 in simp_all)
    then obtain m c' j s' where 3: "bfSteps m prog ?c1 = Running c'"
      and 4: "x86Steps j code tapeAddr ret s1 = Running s'"
      and q: "program c' = ?p + length b + 1" "loops c' = loops c" "nskip c' = 0" "cell c' = 0"
        "related tapeAddr ret c' s'"
        "rip s' = ?q + ?n + 9 \<or> rip s' = ?q + ?n + 9 + 11 * k"
      by blast
    have "bfSteps (1 + m) prog c = Running c'"
      by (rule bfSteps_trans [OF bfSteps_one [OF 1] 3])
    moreover have "x86Steps (2 + j) code tapeAddr ret s = Running s'"
      by (rule x86Steps_trans [OF 2 4])
    moreover have "program c' = program c + length b + 2" using q(1) by simp
    moreover have "rip s' = rip s + ?n + 18 \<or> rip s' = rip s + ?n + 18 + 11 * k"
      using q(6) by auto
    ultimately show ?thesis using q(2-5) by blast
  qed
  then obtain m3 c3 j3 s3 where 3: "bfSteps m3 prog c = Running c3"
    and 4: "x86Steps j3 code tapeAddr ret s = Running s3"
    and q: "program c3 = program c + length b + 2" "loops c3 = loops c" "nskip c3 = 0"
      "cell c3 = 0" "related tapeAddr ret c3 s3"
    and ex: "rip s3 = rip s + ?n + 18 \<or> rip s3 = rip s + ?n + 18 + 11 * k"
    by blast
  have f3: "completes prog c3 cf" by (rule completes_steps [OF Loop.prems(8) 3])
  have e3: "drop (program c3) prog = r @ tpost" using d3 q(1) by simp
  show ?case
  proof (cases "r = []")
    case False
    then have k0: "k = 0" using Loop.hyps(3) by simp
    have r3: "rip s3 = rip s + (?n + 18)" using ex k0 by auto
    have cC3: "codeAt code (rip s3) C" using cC k0 r3 by (simp add: add.assoc)
    have p3: "program c3 = program c + (length b + 2)" using q(1) by simp
    from seg_advance [OF 3 4 q(2) Loop.IH(2) [OF e3 Loop.prems(2) cC3 Loop.prems(4,5) q(3,5) f3 nr]
        p3 r3]
    show ?thesis using k0 by (simp add: ac_simps)
  next
    case True
    then have kla: "k = la" using Loop.hyps(3) by simp
    have C: "C = []" using emits_Nil Loop.hyps(2) True by blast
    have "drop (program c) prog = (CHR ''['' # b) @ CHR '']'' # tpost" using at True by simp
    then have la11: "la \<le> 11"
      using Loop.prems(2,4) unfolding faithful_def by (intro closers_bound) blast+
    show ?thesis
    proof (cases "la = 0")
      case True
      have r3: "rip s3 = rip s + ?n + 18" using ex kla True by auto
      have "segDone prog code tapeAddr ret la c3 s3 (program c + length b + 2)
          (rip s + ?n + 18)"
        using q r3 by (intro segDone_here) simp_all
      then have "segDone prog code tapeAddr ret la c s (program c + length b + 2)
          (rip s + ?n + 18)"
        by (rule segDone_trans [OF 3 4 q(2)])
      then show ?thesis using C kla True \<open>r = []\<close> by (simp add: ac_simps)
    next
      case False
      then have pos: "0 < la" by simp
      have "\<exists>j4 s4. x86Steps j4 code tapeAddr ret s = Running s4 \<and> related tapeAddr ret c3 s4 \<and>
          rip s4 = rip s + ?n + 18 + 11 * la"
        using ex
      proof
        assume r3: "rip s3 = rip s + ?n + 18"
        let ?s4 = "s3\<lparr>rip := rip s3 + 11 * la\<rparr>"
        have "codeAt code (rip s3) [0xeb, of_nat (la * 11 - 2)]"
          using cE kla pos r3 by simp
        then have "x86Step code tapeAddr ret s3 = Running ?s4"
          using pos la11 by (rule step_skip_closers)
        then have "x86Steps 1 code tapeAddr ret s3 = Running ?s4" by (rule x86Steps_one)
        then have "x86Steps (j3 + 1) code tapeAddr ret s = Running ?s4"
          by (rule x86Steps_trans [OF 4])
        moreover have "related tapeAddr ret c3 ?s4" by (rule related_rip [OF q(5)])
        moreover have "rip ?s4 = rip s + ?n + 18 + 11 * la" using r3 by simp
        ultimately show ?thesis by blast
      next
        assume "rip s3 = rip s + ?n + 18 + 11 * k"
        then show ?thesis using 4 q(5) kla by blast
      qed
      then obtain j4 s4 where 5: "x86Steps j4 code tapeAddr ret s = Running s4"
        and r4: "related tapeAddr ret c3 s4" "rip s4 = rip s + ?n + 18 + 11 * la"
        by blast
      have "rip s4 = (rip s + ?n + 20) + 11 * la - 2" using r4(2) pos by simp
      then have "segDone prog code tapeAddr ret la c3 s4 (program c + length b + 2)
          (rip s + ?n + 20)"
        using q r4(1) pos by (intro segDone_here) simp_all
      then have "segDone prog code tapeAddr ret la c s (program c + length b + 2)
          (rip s + ?n + 20)"
        by (rule segDone_trans [OF 3 5 q(2)])
      then show ?thesis using C kla pos \<open>r = []\<close> by (simp add: ac_simps)
    qed
  qed
qed

subsection \<open>Whole programs\<close>

lemma x86Run_trans:
  assumes "x86Steps m code tapeAddr ret s = Running s'"
    and "x86Run n code tapeAddr ret s' = r"
  shows "x86Run (m + n) code tapeAddr ret s = r"
  using assms
proof (induction m arbitrary: s)
  case 0
  then show ?case by simp
next
  case (Suc m)
  from Suc.prems(1) obtain s1 where 1: "x86Step code tapeAddr ret s = Running s1"
    and 2: "x86Steps m code tapeAddr ret s1 = Running s'"
    by (cases "x86Step code tapeAddr ret s") auto
  show ?case using 1 Suc.IH [OF 2 Suc.prems(2)] by simp
qed

lemma follows_NUL: "follows 0 [NUL]"
  by (simp add: follows_def closers_def NUL_def)

lemma compile_layout:
  assumes "balanced P"
  shows "\<exists>C. emits 0 P C \<and>
     bfJITCompile (P @ [NUL]) ptrAddr = Inr (prologue ptrAddr @ C @ epilogue)"
proof -
  from assms obtain C where e: "emits 0 P C"
    using emits_exists [of P 0] unfolding balanced_def by blast
  have "codegen [NUL] st = Inr st" for st by (simp add: NUL_def)
  with codegen_emits [OF e follows_NUL, of "\<lparr>machineCode = prologue ptrAddr, jmpLocIndex = []\<rparr>"]
  have "bfJITCompile (P @ [NUL]) ptrAddr = Inr (prologue ptrAddr @ C @ epilogue)"
    by (simp add: bfJITCompile_def)
  then show ?thesis using e by blast
qed

lemma length_prologue: "length (prologue a) = 10"
  by (simp add: prologue_def)

lemma bfStep_end:
  assumes "program c = length P"
  shows "bfStep (P @ [NUL]) c = Returned (c\<lparr>program := program c + 1\<rparr>)"
  using assms by (intro bfStep_NUL) (simp add: charAt_def)

lemma modes_agree:
  assumes bal: "balanced P" and nul: "NUL \<notin> set P" and fa: "faithful (P @ [NUL])"
    and cg: "bfJITCompile (P @ [NUL]) tapeAddr = Inr code" and sz: "length code < 2 ^ 31"
    and run: "bfInterpret k (P @ [NUL]) (initInterp inp) = Some (Returned cf)"
    and ne: "\<not> stdin_eof cf"
  shows "\<exists>k' sf. x86Run k' code tapeAddr ret (entry regs ret inp) = Some (Returned sf) \<and>
     fd1 sf = stdout cf \<and> cells sf = tape cf \<and> fd0 sf = stdin cf \<and>
     rbx sf = tapeAddr + word_of_int (ptr cf)"
proof -
  let ?prog = "P @ [NUL]"
  let ?c = "initInterp inp"
  let ?s = "entry regs ret inp"
  let ?s1 = "?s\<lparr>rip := rip ?s + 10, rbx := tapeAddr\<rparr>"
  from compile_layout [OF bal, of tapeAddr] cg obtain C where e: "emits 0 P C"
    and code: "code = prologue tapeAddr @ C @ epilogue"
    by auto
  have cP: "codeAt code (rip ?s) (prologue tapeAddr)"
    using codeAt_whole [of "[]" "prologue tapeAddr" "C @ epilogue"] code
    by (simp add: entry_def)
  have 1: "x86Steps 1 code tapeAddr ret ?s = Running ?s1"
    by (rule x86Steps_one [OF step_movabs [OF cP]])
  have cC: "codeAt code (rip ?s1) C"
    using codeAt_whole [of "prologue tapeAddr" C epilogue] code
    by (simp add: entry_def length_prologue)
  have cE: "codeAt code (10 + length C) epilogue"
    using codeAt_whole [of "prologue tapeAddr @ C" epilogue "[]"] code
    by (simp add: length_prologue)
  have rel: "related tapeAddr ret ?c ?s1"
    by (simp add: related_def initInterp_def entry_def)
  have comp: "completes ?prog ?c cf" using run ne unfolding completes_def by blast
  have d: "drop (program ?c) ?prog = P @ [NUL]" by (simp add: initInterp_def)
  have ns: "nskip ?c = 0" by (simp add: initInterp_def)
  from seg_sim [OF e d follows_NUL cC fa sz ns rel comp nul]
  obtain m c' j s' where 2: "bfSteps m ?prog ?c = Running c'"
    and 3: "x86Steps j code tapeAddr ret ?s1 = Running s'"
    and q: "program c' = length P" "related tapeAddr ret c' s'" "rip s' = 10 + length C"
    unfolding segDone_def by (auto simp: initInterp_def entry_def)
  from bfInterpret_steps [OF 2 run]
  have r: "bfInterpret (k - m) ?prog c' = Some (Returned cf)" and "m < k" by simp_all
  then have "k - m = Suc (k - m - 1)" by simp
  then have "bfInterpret (Suc (k - m - 1)) ?prog c' = Some (Returned cf)" using r by metis
  then have cf: "cf = c'\<lparr>program := program c' + 1\<rparr>"
    unfolding bfInterpret.simps bfStep_end [OF q(1)] by simp
  let ?sf = "s'\<lparr>rip := rip s' + 3, rax := ret, stack := tl (stack s')\<rparr>"
  have st: "stack s' = ret # tl (stack s')" using q(2) unfolding related_def by (cases "stack s'") auto
  have "codeAt code (rip s') epilogue" using cE q(3) by simp
  from run_epilogue [OF this st]
  have "x86Run 2 code tapeAddr ret s' = Some (Returned ?sf)" .
  from x86Run_trans [OF x86Steps_trans [OF 1 3] this]
  have "x86Run (1 + j + 2) code tapeAddr ret ?s = Some (Returned ?sf)" .
  moreover have "fd1 ?sf = stdout cf" "cells ?sf = tape cf" "fd0 ?sf = stdin cf"
    "rbx ?sf = tapeAddr + word_of_int (ptr cf)"
    using q(2) cf unfolding related_def by simp_all
  ultimately show ?thesis by blast
qed

subsection \<open>The two modes\<close>

lemma text0_terminated:
  assumes "NUL \<notin> set P"
  shows "text0 (P @ [NUL] @ junk) = P"
  using assms by (induction P) (auto simp: text0_def)

lemma run_terminated:
  assumes "NUL \<notin> set P"
  shows "bfRunDefault k (P @ [NUL] @ junk) inp = bfRunDefault k (P @ [NUL]) inp"
proof -
  have w: "withinText p (initInterp inp)" for p by (simp add: withinText_def initInterp_def)
  have "bfRunDefault k (P @ [NUL] @ junk) inp = bfRunDefault k P inp"
    using bfInterpret_text0 [where p = "P @ [NUL] @ junk" and k = k, OF w]
      text0_terminated [OF assms, of junk]
    by (simp add: bfRunDefault_def)
  moreover have "bfRunDefault k (P @ [NUL]) inp = bfRunDefault k P inp"
    using bfInterpret_text0 [where p = "P @ [NUL]" and k = k, OF w]
      text0_terminated [OF assms, of "[]"]
    by (simp add: bfRunDefault_def)
  ultimately show ?thesis by simp
qed

lemma long_run_interp:
  "\<exists>cf. bfRunDefault 3 (replicate 300 (CHR ''>'') @ CHR ''+'' # [NUL]) [] =
       Some (Returned cf) \<and>
     tape cf 300 = 1 \<and> tape cf 44 = 0 \<and> ptr cf = 300"
proof -
  let ?P = "replicate 300 (CHR ''>'') @ CHR ''+'' # [NUL]"
  let ?c0 = "initInterp []"
  let ?c1 = "?c0\<lparr>program := 300, ptr := 300\<rparr>"
  let ?c2 = "(setCell 1 ?c1)\<lparr>program := 301\<rparr>"
  have "drop (program ?c0) ?P = replicate (Suc 299) (CHR ''>'') @ CHR ''+'' # [NUL]"
    by (simp add: initInterp_def)
  from bfStep_run [OF this]
  have 1: "bfStep ?P ?c0 = Running ?c1"
    by (simp add: bfExec_def Let_def initInterp_def)
  have "drop (program ?c1) ?P = CHR ''+'' # [NUL]" by simp
  from bfStep_drop [OF this]
  have 2: "bfStep ?P ?c1 = Running ?c2"
    by (simp add: bfExec_def Let_def initInterp_def inRange_def TAPE_SIZE_def cell_def setCell_def
        NUL_def)
  have "charAt ?P (program ?c2) = NUL" by (simp add: charAt_def nth_append)
  from bfStep_NUL [OF this]
  have 3: "bfStep ?P ?c2 = Returned (?c2\<lparr>program := 302\<rparr>)" by simp
  have "bfRunDefault 3 ?P [] = Some (Returned (?c2\<lparr>program := 302\<rparr>))"
    unfolding bfRunDefault_def by (simp add: bfInterpret_numeral 1 2 3)
  then show ?thesis by (simp add: setCell_def initInterp_def)
qed

lemma long_run_code:
  "bfJITCompile (replicate 300 (CHR ''>'') @ CHR ''+'' # [NUL]) a =
     Inr (prologue a @ [0x48, 0x83, 0xc3, 44] @ [0x80, 0x3, 1] @ epilogue)"
  using codegen_run [of "CHR ''+'' # [NUL]" "CHR ''>''" 299
      "\<lparr>machineCode = prologue a, jmpLocIndex = []\<rparr>"]
  by (simp add: bfJITCompile_def appendBytecode_def NUL_def)

lemma long_run_machine:
  "\<exists>sf. x86Run 5 (prologue 0x1000 @ [0x48, 0x83, 0xc3, 44] @ [0x80, 0x3, 1] @ epilogue)
       0x1000 0x2000
       (entry \<lparr>rip = 0, rax = 0, rbx = 0, rdi = 0, rsi = 0, rdx = 0, zf = False, stack = [],
          cells = (\<lambda>_. 0), fd0 = [], fd1 = []\<rparr> 0x2000 []) = Some (Returned sf) \<and>
     cells sf 300 = 0 \<and> cells sf 44 = 1 \<and> rbx sf = 0x1000 + 44"
proof -
  let ?a = "0x1000 :: 64 word"
  let ?ret = "0x2000 :: 64 word"
  let ?code = "prologue ?a @ [0x48, 0x83, 0xc3, 44] @ [0x80, 0x3, 1] @ epilogue"
  let ?s0 = "entry \<lparr>rip = 0, rax = 0, rbx = 0, rdi = 0, rsi = 0, rdx = 0, zf = False,
        stack = [], cells = (\<lambda>_. 0), fd0 = [], fd1 = []\<rparr> ?ret []"
  let ?s1 = "?s0\<lparr>rip := rip ?s0 + 10, rbx := ?a\<rparr>"
  let ?s2 = "?s1\<lparr>rip := rip ?s1 + 4, rbx := rbx ?s1 + scast (44 :: 8 word),
      zf := (rbx ?s1 + scast (44 :: 8 word) = 0)\<rparr>"
  let ?s3 = "?s2\<lparr>rip := rip ?s2 + 3,
      zf := (cells ?s2 (cellAt ?a (rbx ?s2)) + 1 = 0),
      cells := (cells ?s2)(cellAt ?a (rbx ?s2) := cells ?s2 (cellAt ?a (rbx ?s2)) + 1)\<rparr>"
  let ?sf = "?s3\<lparr>rip := rip ?s3 + 3, rax := ?ret, stack := []\<rparr>"
  have sc: "scast (44 :: 8 word) = (44 :: 64 word)" by simp
  have "codeAt ?code (rip ?s0) (prologue ?a)"
    using codeAt_whole [of "[]" "prologue ?a" "[0x48, 0x83, 0xc3, 44] @ [0x80, 0x3, 1] @ epilogue"]
    by (simp add: entry_def)
  then have 1: "x86Step ?code ?a ?ret ?s0 = Running ?s1" by (rule step_movabs)
  have "codeAt ?code (rip ?s1) [0x48, 0x83, 0xc3, 44]"
    using codeAt_whole [of "prologue ?a" "[0x48, 0x83, 0xc3, 44]" "[0x80, 0x3, 1] @ epilogue"]
    by (simp add: entry_def length_prologue)
  then have 2: "x86Step ?code ?a ?ret ?s1 = Running ?s2" by (rule step_add_rbx)
  have c3: "codeAt ?code (rip ?s2) [0x80, 0x3, 1]"
    using codeAt_whole [of "prologue ?a @ [0x48, 0x83, 0xc3, 44]" "[0x80, 0x3, 1]" epilogue]
    by (simp add: entry_def length_prologue)
  have "onTape ?a (rbx ?s2)" by (simp add: onTape_def TAPE_SIZE_def sc)
  with c3 have 3: "x86Step ?code ?a ?ret ?s2 = Running ?s3" by (rule step_addb)
  have c4: "codeAt ?code (rip ?s3) epilogue"
    using codeAt_whole [of "prologue ?a @ [0x48, 0x83, 0xc3, 44] @ [0x80, 0x3, 1]" epilogue "[]"]
    by (simp add: entry_def length_prologue)
  have "stack ?s3 = ?ret # []" by (simp add: entry_def)
  from run_epilogue [OF c4 this]
  have 4: "x86Run 2 ?code ?a ?ret ?s3 = Some (Returned ?sf)" .
  have e: "1 + 1 + 1 + 2 = (5 :: nat)" by simp
  have "x86Run (1 + 1 + 1 + 2) ?code ?a ?ret ?s0 = Some (Returned ?sf)"
    by (rule x86Run_trans [OF x86Steps_trans [OF x86Steps_trans
          [OF x86Steps_one [OF 1] x86Steps_one [OF 2]] x86Steps_one [OF 3]] 4])
  then have "x86Run 5 ?code ?a ?ret ?s0 = Some (Returned ?sf)" unfolding e .
  moreover have "cells ?sf 300 = 0" "cells ?sf 44 = 1" "rbx ?sf = 0x1000 + 44"
    by (simp_all add: entry_def cellAt_def sc)
  ultimately show ?thesis by blast
qed

text \<open>
  C1. The text that \<^verbatim>\<open>main\<close> hands to both modes is one vector: the interpreter
  receives its characters (\<^verbatim>\<open>v.data()\<close>) and stops at a NUL, the generator walks
  the vector to its end. Let the vector be \<open>P @ [NUL]\<close> with no NUL in \<open>P\<close>: then
  neither mode reads past the end of the vector (the interpreter's run is the same
  whatever bytes \<open>junk\<close> follow it in memory; a generator that read past the end
  would give \<open>ReadPastEnd\<close> and no code). The two modes agree on every such text
  with balanced brackets that the interpreter runs to its end without reading at end
  of input, provided the text is \<open>faithful\<close> (no run of \<open>></\<close> or \<open><\<close> longer than
  127, which is the bound of the processor's signed immediate byte and not the 255
  of the header comment of the source, and no more than twelve \<open>]\<close> in a row), its
  code is shorter than \<open>2^31\<close> bytes and fits the mapping: then the generated code
  returns to its caller, with the same output, the same tape, the same rest of the
  input and the cursor on the same cell.
\<close>

theorem C1_modes_agree:
  assumes "balanced P" and "NUL \<notin> set P" and "faithful (P @ [NUL])"
    and "bfJITCompile (P @ [NUL]) tapeAddr = Inr code" and "length code < 2 ^ 31"
    and "setupExecutableMem mmap pageSize code = Entered code"
    and "bfRunDefault k (P @ [NUL]) inp = Some (Returned cf)" and "\<not> stdin_eof cf"
  shows "(\<exists>k' sf. bfRunJIT k' mmap pageSize regs tapeAddr ret (P @ [NUL]) inp =
        Some (Returned sf) \<and>
      fd1 sf = stdout cf \<and> cells sf = tape cf \<and> fd0 sf = stdin cf \<and>
      rbx sf = tapeAddr + word_of_int (ptr cf)) \<and>
     (\<forall>junk. bfRunDefault k (P @ [NUL] @ junk) inp = Some (Returned cf))"
proof -
  have "\<exists>k' sf. bfRunJIT k' mmap pageSize regs tapeAddr ret (P @ [NUL]) inp =
        Some (Returned sf) \<and>
      fd1 sf = stdout cf \<and> cells sf = tape cf \<and> fd0 sf = stdin cf \<and>
      rbx sf = tapeAddr + word_of_int (ptr cf)"
    using modes_agree [OF assms(1,2,3,4,5) _ assms(8), of k inp ret regs] assms(4,6,7)
    by (simp add: bfRunJIT_def bfRunDefault_def)
  moreover have "bfRunDefault k (P @ [NUL] @ junk) inp = Some (Returned cf)" for junk
    using run_terminated [OF assms(2), of k junk inp] assms(7) by simp
  ultimately show ?thesis by blast
qed

theorem C1_modes_agree_witness:
  "(\<exists>k' sf. bfRunJIT k' (kernelMmap 4096) 4096
       \<lparr>rip = 0, rax = 0, rbx = 0, rdi = 0, rsi = 0, rdx = 0, zf = False, stack = [],
        cells = (\<lambda>_. 0), fd0 = [], fd1 = []\<rparr> 0x1000 0x2000 ('',[-].'' @ [NUL]) [2] =
       Some (Returned sf) \<and>
     fd1 sf = [0] \<and> cells sf 0 = 0 \<and> fd0 sf = [] \<and> rbx sf = 0x1000) \<and>
   (\<exists>cf. bfRunDefault 8 ('',[-].'' @ [NUL]) [2] = Some (Returned cf) \<and>
     stdout cf = [0] \<and> tape cf 0 = 0 \<and> stdin cf = [] \<and> ptr cf = 0)"
proof -
  have b: "balanced '',[-].''" by (simp add: balanced_def)
  have n: "NUL \<notin> set '',[-].''" by (simp add: NUL_def)
  have f: "faithful ('',[-].'' @ [NUL])" by (simp add: faithful_def NUL_def)
  obtain code where c: "bfJITCompile ('',[-].'' @ [NUL]) 0x1000 = Inr code"
    and l: "length code = 74"
    by (simp add: bfJITCompile_def prologue_def epilogue_def resolvePtrAddr_def
      closeLoop_def openLoop_def skipClosers_def appendBytecode_def resolveAddrDiff_def
      readSyscall_def writeSyscall_def Let_def NUL_def)
  have m: "setupExecutableMem (kernelMmap 4096) 4096 code = Entered code"
    by (simp add: l mmapLength_def kernelMmap_def pageRound_def setupExecutableMem_def)
  obtain cf where r: "bfRunDefault 8 ('',[-].'' @ [NUL]) [2] = Some (Returned cf)"
    and o: "stdout cf = [0]" "stdin cf = []" "\<not> stdin_eof cf" "ptr cf = 0" "tape cf 0 = 0"
    by (simp add: bfRunDefault_def initInterp_def bfStep_def Let_def charAt_def runLen_def
      cell_def setCell_def inRange_def getchar_def TAPE_SIZE_def MAX_NESTING_def EOF_def
      NUL_def bfInterpret_numeral)
  have "length code < 2 ^ 31" using l by simp
  from C1_modes_agree [OF b n f c this m r o(3), of
      "\<lparr>rip = 0, rax = 0, rbx = 0, rdi = 0, rsi = 0, rdx = 0, zf = False, stack = [],
        cells = (\<lambda>_. 0), fd0 = [], fd1 = []\<rparr>" "0x2000"]
  obtain k' sf where "bfRunJIT k' (kernelMmap 4096) 4096
       \<lparr>rip = 0, rax = 0, rbx = 0, rdi = 0, rsi = 0, rdx = 0, zf = False, stack = [],
        cells = (\<lambda>_. 0), fd0 = [], fd1 = []\<rparr> 0x1000 0x2000 ('',[-].'' @ [NUL]) [2] =
       Some (Returned sf)"
    and "fd1 sf = stdout cf" "cells sf = tape cf" "fd0 sf = stdin cf"
      "rbx sf = 0x1000 + word_of_int (ptr cf)"
    by blast
  then have "\<exists>k' sf. bfRunJIT k' (kernelMmap 4096) 4096
       \<lparr>rip = 0, rax = 0, rbx = 0, rdi = 0, rsi = 0, rdx = 0, zf = False, stack = [],
        cells = (\<lambda>_. 0), fd0 = [], fd1 = []\<rparr> 0x1000 0x2000 ('',[-].'' @ [NUL]) [2] =
       Some (Returned sf) \<and>
     fd1 sf = [0] \<and> cells sf 0 = 0 \<and> fd0 sf = [] \<and> rbx sf = 0x1000"
    using o by (intro exI [of _ k'] exI [of _ sf]) simp
  then show ?thesis using r o by blast
qed

text \<open>
  C1, as stated, fails on a run longer than 255: for 300 \<open>></\<close> followed by \<open>+\<close>
  (balanced, cursor in range; the text ends with its NUL) the interpreter moves the
  cursor by 300 and leaves 1 in cell 300; the generated code moves it by
  \<open>300 mod 256 = 44\<close> and leaves 1 in cell 44.
\<close>

theorem C1_long_run_counterexample:
  "balanced (replicate 300 (CHR ''>'') @ ''+'') \<and>
   NUL \<notin> set (replicate 300 (CHR ''>'') @ ''+'') \<and>
   (\<exists>cf sf. bfRunDefault 3 (replicate 300 (CHR ''>'') @ CHR ''+'' # [NUL]) [] =
        Some (Returned cf) \<and>
      bfRunJIT 5 (kernelMmap 4096) 4096
        \<lparr>rip = 0, rax = 0, rbx = 0, rdi = 0, rsi = 0, rdx = 0, zf = False, stack = [],
         cells = (\<lambda>_. 0), fd0 = [], fd1 = []\<rparr> 0x1000 0x2000
        (replicate 300 (CHR ''>'') @ CHR ''+'' # [NUL]) [] = Some (Returned sf) \<and>
      tape cf 300 = 1 \<and> cells sf 300 = 0 \<and> tape cf 44 = 0 \<and> cells sf 44 = 1 \<and>
      ptr cf = 300 \<and> rbx sf = 0x1000 + 44)"
proof -
  have b: "balanced (replicate 300 (CHR ''>'') @ ''+'')"
    by (simp add: balanced_def nesting_replicate)
  have n: "NUL \<notin> set (replicate 300 (CHR ''>'') @ ''+'')" by (simp add: NUL_def)
  have m: "setupExecutableMem (kernelMmap 4096) 4096
      (prologue 0x1000 @ [0x48, 0x83, 0xc3, 44] @ [0x80, 0x3, 1] @ epilogue) =
      Entered (prologue 0x1000 @ [0x48, 0x83, 0xc3, 44] @ [0x80, 0x3, 1] @ epilogue)"
    by (simp add: length_prologue epilogue_def mmapLength_def kernelMmap_def pageRound_def
        setupExecutableMem_def)
  have "bfRunJIT 5 (kernelMmap 4096) 4096
        \<lparr>rip = 0, rax = 0, rbx = 0, rdi = 0, rsi = 0, rdx = 0, zf = False, stack = [],
         cells = (\<lambda>_. 0), fd0 = [], fd1 = []\<rparr> 0x1000 0x2000
        (replicate 300 (CHR ''>'') @ CHR ''+'' # [NUL]) [] =
      x86Run 5 (prologue 0x1000 @ [0x48, 0x83, 0xc3, 44] @ [0x80, 0x3, 1] @ epilogue)
       0x1000 0x2000
       (entry \<lparr>rip = 0, rax = 0, rbx = 0, rdi = 0, rsi = 0, rdx = 0, zf = False, stack = [],
          cells = (\<lambda>_. 0), fd0 = [], fd1 = []\<rparr> 0x2000 [])"
    by (simp only: bfRunJIT_def long_run_code m sum.case launch.case)
  then show ?thesis using b n long_run_interp long_run_machine by metis
qed

subsection \<open>A run of increments followed by a run of decrements\<close>

lemma bfInterpret_returns:
  assumes "bfSteps m p c = Running c'" and "bfStep p c' = Returned cf"
  shows "bfInterpret (Suc m) p c = Some (Returned cf)"
  using assms
proof (induction m arbitrary: c)
  case 0
  then show ?case by simp
next
  case (Suc m)
  from Suc.prems(1) obtain c1 where 1: "bfStep p c = Running c1"
    and 2: "bfSteps m p c1 = Running c'"
    by (cases "bfStep p c") auto
  show ?case using 1 Suc.IH [OF 2 Suc.prems(2)] by simp
qed

lemma cell_run_steps:
  assumes at: "drop (program c) prog = replicate n ch @ rest"
    and b: "rest = [] \<or> hd rest \<noteq> ch"
    and ch: "ch = CHR ''+'' \<or> ch = CHR ''-''"
    and ns: "nskip c = 0" and ir: "inRange (ptr c)"
  shows "\<exists>m c1. bfSteps m prog c = Running c1 \<and> program c1 = program c + n \<and> nskip c1 = 0 \<and>
     ptr c1 = ptr c \<and> stdin_eof c1 = stdin_eof c \<and>
     cell c1 = (if ch = CHR ''+'' then cell c + of_nat n else cell c - of_nat n)"
proof (cases n)
  case 0
  have "bfSteps 0 prog c = Running c" by simp
  then show ?thesis using 0 ns by (intro exI [of _ 0] exI [of _ c]) simp
next
  case (Suc m)
  have st: "bfStep prog c = bfExec ch m c" using at b unfolding Suc by (rule bfStep_run)
  from ch show ?thesis
  proof
    assume p: "ch = CHR ''+''"
    let ?c1 = "setCell (cell c + of_nat (1 + m)) (c\<lparr>program := program c + 1 + m\<rparr>)"
    have "bfStep prog c = Running ?c1"
      unfolding st using p ns ir by (simp add: bfExec_def Let_def)
    then have "bfSteps 1 prog c = Running ?c1" by (rule bfSteps_one)
    moreover have "program ?c1 = program c + n" "nskip ?c1 = 0" "ptr ?c1 = ptr c"
      "stdin_eof ?c1 = stdin_eof c" "cell ?c1 = cell c + of_nat n"
      using ns Suc by (simp_all add: setCell_def cell_def)
    ultimately show ?thesis using p by (intro exI [of _ 1] exI [of _ ?c1]) simp
  next
    assume p: "ch = CHR ''-''"
    let ?c1 = "setCell (cell c - of_nat (1 + m)) (c\<lparr>program := program c + 1 + m\<rparr>)"
    have "bfStep prog c = Running ?c1"
      unfolding st using p ns ir by (simp add: bfExec_def Let_def)
    then have "bfSteps 1 prog c = Running ?c1" by (rule bfSteps_one)
    moreover have "program ?c1 = program c + n" "nskip ?c1 = 0" "ptr ?c1 = ptr c"
      "stdin_eof ?c1 = stdin_eof c" "cell ?c1 = cell c - of_nat n"
      using ns Suc by (simp_all add: setCell_def cell_def)
    ultimately show ?thesis using p by (intro exI [of _ 1] exI [of _ ?c1]) simp
  qed
qed

lemma longestRun_absent: "c \<notin> set p \<Longrightarrow> longestRun c p = 0"
  by (induction p) auto

lemma emits_length:
  assumes "emits la xs C"
  shows "length C \<le> 20 * length xs"
  using assms
proof (induction rule: emits.induct)
  case (Run c r la C m)
  then show ?case by (simp add: length_runOp)
next
  case (Read la r C)
  then show ?case by (simp add: readSyscall_def)
next
  case (Write la r C)
  then show ?case by (simp add: writeSyscall_def)
qed simp_all

lemma unat_difference:
  "unat (of_nat k - of_nat j :: 8 word) = nat ((int k - int j) mod 256)"
proof -
  have e: "(of_nat k - of_nat j :: 8 word) = word_of_int (int k - int j)"
    by (simp only: of_int_diff of_int_of_nat_eq)
  have "uint (word_of_int x :: 8 word) = x mod 256" for x
    by (simp add: uint_word_of_int_eq take_bit_eq_mod)
  then show ?thesis unfolding e unat_eq_nat_uint by (simp only:)
qed

lemma run_cstring:
  assumes "NUL \<notin> set P"
  shows "bfRunDefault k (P @ [NUL]) inp = bfRunDefault k P inp"
proof -
  have w: "withinText p (initInterp inp)" for p by (simp add: withinText_def initInterp_def)
  show ?thesis
    using bfInterpret_text0 [where p = "P @ [NUL]" and k = k, OF w]
      text0_terminated [OF assms, of "[]"]
    by (simp add: bfRunDefault_def)
qed

lemma plus_minus_interp:
  "\<exists>n cf. bfRunDefault n (replicate k (CHR ''+'') @ replicate j (CHR ''-'')) inp =
       Some (Returned cf) \<and>
     ptr cf = 0 \<and> \<not> stdin_eof cf \<and> cell cf = of_nat k - of_nat j"
proof -
  let ?P = "replicate k (CHR ''+'') @ replicate j (CHR ''-'')"
  let ?c = "initInterp inp"
  have a1: "drop (program ?c) ?P = replicate k (CHR ''+'') @ replicate j (CHR ''-'')"
    by (simp add: initInterp_def)
  have b1: "replicate j (CHR ''-'') = [] \<or> hd (replicate j (CHR ''-'')) \<noteq> CHR ''+''"
    by (cases j) simp_all
  have i1: "nskip ?c = 0" "inRange (ptr ?c)"
    by (simp_all add: initInterp_def inRange_def TAPE_SIZE_def)
  from cell_run_steps [OF a1 b1 _ i1]
  obtain m1 c1 where 1: "bfSteps m1 ?P ?c = Running c1"
    and p1: "program c1 = program ?c + k" "nskip c1 = 0" "ptr c1 = ptr ?c"
      "stdin_eof c1 = stdin_eof ?c" "cell c1 = cell ?c + of_nat k"
    by auto
  have a2: "drop (program c1) ?P = replicate j (CHR ''-'') @ []"
    using p1(1) by (simp add: initInterp_def)
  have i2: "inRange (ptr c1)" using p1(3) i1(2) by simp
  from cell_run_steps [OF a2 _ _ p1(2) i2]
  obtain m2 c2 where 2: "bfSteps m2 ?P c1 = Running c2"
    and p2: "program c2 = program c1 + j" "ptr c2 = ptr c1" "stdin_eof c2 = stdin_eof c1"
      "cell c2 = cell c1 - of_nat j"
    by auto
  have "charAt ?P (program c2) = NUL"
    using p2(1) p1(1) by (simp add: charAt_def initInterp_def)
  from bfInterpret_returns [OF bfSteps_trans [OF 1 2] bfStep_NUL [OF this]]
  have r: "bfRunDefault (Suc (m1 + m2)) ?P inp =
      Some (Returned (c2\<lparr>program := program c2 + 1\<rparr>))"
    by (simp add: bfRunDefault_def)
  have "cell (c2\<lparr>program := program c2 + 1\<rparr>) = cell c2" by (simp add: cell_def)
  moreover have "cell c2 = of_nat k - of_nat j"
    using p2(4) p1(5) by (simp add: cell_def initInterp_def)
  moreover have "ptr c2 = 0" "\<not> stdin_eof c2"
    using p2(2,3) p1(3,4) by (simp_all add: initInterp_def)
  ultimately show ?thesis using r by (intro exI conjI) simp_all
qed

lemma plus_minus_past_end:
  assumes "0 < k + j"
  shows "bfJITCompile (replicate k (CHR ''+'') @ replicate j (CHR ''-'')) a = Inl ReadPastEnd"
proof (cases j)
  case 0
  then obtain m where "k = Suc m" using assms by (cases k) auto
  then show ?thesis
    using 0 codegen_run_end [of "CHR ''+''" m "\<lparr>machineCode = prologue a, jmpLocIndex = []\<rparr>"]
    by (simp add: bfJITCompile_def del: replicate_Suc)
next
  case (Suc i)
  have e: "codegen (replicate (Suc i) (CHR ''-'')) st = Inl ReadPastEnd" for st
    by (rule codegen_run_end) simp
  show ?thesis
  proof (cases k)
    case 0
    then show ?thesis using Suc e by (simp add: bfJITCompile_def del: replicate_Suc)
  next
    case (Suc m)
    have "codegen (replicate (Suc m) (CHR ''+'') @ replicate (Suc i) (CHR ''-'')) st =
        codegen (replicate (Suc i) (CHR ''-'')) (appendBytecode [0x80, 0x3, of_nat (Suc m)] st)"
      for st
      using codegen_run [of "replicate (Suc i) (CHR ''-'')" "CHR ''+''" m st] by simp
    then show ?thesis
      using Suc \<open>j = Suc i\<close> e by (simp add: bfJITCompile_def del: replicate_Suc)
  qed
qed

text \<open>
  C8. For \<open>k, j \<le> 255\<close>, the text of \<open>k\<close> \<open>+\<close> followed by \<open>j\<close> \<open>-\<close>, run on a
  zeroed tape, leaves \<open>(k - j) mod 256\<close> in the current cell (cell 0): the interpreter
  returns with it; and the code generated for the text followed by the NUL that ends
  it, entered at its first byte, returns to its caller with it. For the vector of
  these characters alone the generator has no code: the counting loop of the last
  run reads past the end of the text.
\<close>

theorem C8_plus_then_minus:
  assumes "k \<le> 255" and "j \<le> 255"
  shows
    "(\<exists>n cf. bfRunDefault n (replicate k (CHR ''+'') @ replicate j (CHR ''-'')) inp =
         Some (Returned cf) \<and>
       ptr cf = 0 \<and> unat (cell cf) = nat ((int k - int j) mod 256)) \<and>
     (\<exists>code n' sf.
       bfJITCompile (replicate k (CHR ''+'') @ replicate j (CHR ''-'') @ [NUL]) tapeAddr =
         Inr code \<and>
       x86Run n' code tapeAddr ret (entry regs ret inp) = Some (Returned sf) \<and>
       rbx sf = tapeAddr \<and> unat (cells sf 0) = nat ((int k - int j) mod 256)) \<and>
     (0 < k + j \<longrightarrow>
       bfJITCompile (replicate k (CHR ''+'') @ replicate j (CHR ''-'')) tapeAddr =
         Inl ReadPastEnd)"
proof -
  let ?P = "replicate k (CHR ''+'') @ replicate j (CHR ''-'')"
  from plus_minus_interp [of k j inp] obtain n cf where
    r: "bfRunDefault n ?P inp = Some (Returned cf)"
    and p: "ptr cf = 0" "\<not> stdin_eof cf" "cell cf = of_nat k - of_nat j"
    by blast
  have u: "unat (cell cf) = nat ((int k - int j) mod 256)"
    unfolding p(3) by (rule unat_difference)
  have nul: "NUL \<notin> set ?P" by (auto simp: NUL_def)
  have b: "balanced ?P"
    using nesting_replicate [of "CHR ''+''" 0 k "replicate j (CHR ''-'')"]
      nesting_replicate [of "CHR ''-''" 0 j "[]"]
    by (simp add: balanced_def)
  have f: "faithful (?P @ [NUL])"
    by (auto simp: faithful_def NUL_def longestRun_absent)
  from compile_layout [OF b, of tapeAddr] obtain C where e: "emits 0 ?P C"
    and c: "bfJITCompile (?P @ [NUL]) tapeAddr = Inr (prologue tapeAddr @ C @ epilogue)"
    by blast
  have "length C \<le> 20 * (k + j)" using emits_length [OF e] by simp
  then have l: "length (prologue tapeAddr @ C @ epilogue) < 2 ^ 31"
    using assms by (simp add: length_prologue epilogue_def)
  have r': "bfInterpret n (?P @ [NUL]) (initInterp inp) = Some (Returned cf)"
    using run_cstring [OF nul, of n inp] r by (simp add: bfRunDefault_def)
  from modes_agree [OF b nul f c l r' p(2), of ret regs]
  obtain n' sf where
    x: "x86Run n' (prologue tapeAddr @ C @ epilogue) tapeAddr ret (entry regs ret inp) =
        Some (Returned sf)"
    and q: "cells sf = tape cf" "rbx sf = tapeAddr + word_of_int (ptr cf)"
    by blast
  have "cells sf 0 = cell cf" using q(1) p(1) by (simp add: cell_def)
  then have v: "unat (cells sf 0) = nat ((int k - int j) mod 256)" using u by simp
  have w: "rbx sf = tapeAddr" using q(2) p(1) by simp
  have c': "bfJITCompile (replicate k (CHR ''+'') @ replicate j (CHR ''-'') @ [NUL]) tapeAddr =
      Inr (prologue tapeAddr @ C @ epilogue)"
    using c by simp
  have "0 < k + j \<longrightarrow> bfJITCompile ?P tapeAddr = Inl ReadPastEnd"
    using plus_minus_past_end [of k j tapeAddr] by blast
  moreover have "\<exists>n cf. bfRunDefault n ?P inp = Some (Returned cf) \<and>
       ptr cf = 0 \<and> unat (cell cf) = nat ((int k - int j) mod 256)"
    using r p(1) u by blast
  moreover have "\<exists>code n' sf.
       bfJITCompile (replicate k (CHR ''+'') @ replicate j (CHR ''-'') @ [NUL]) tapeAddr =
         Inr code \<and>
       x86Run n' code tapeAddr ret (entry regs ret inp) = Some (Returned sf) \<and>
       rbx sf = tapeAddr \<and> unat (cells sf 0) = nat ((int k - int j) mod 256)"
    using c' x w v by blast
  ultimately show ?thesis by blast
qed

theorem C8_plus_then_minus_witness:
  "(\<exists>n cf. bfRunDefault n (replicate 3 (CHR ''+'') @ replicate 5 (CHR ''-'')) [] =
       Some (Returned cf) \<and>
     ptr cf = 0 \<and> unat (cell cf) = 254) \<and>
   (\<exists>code n' sf.
     bfJITCompile (replicate 3 (CHR ''+'') @ replicate 5 (CHR ''-'') @ [NUL]) 0x1000 =
       Inr code \<and>
     x86Run n' code 0x1000 0x2000
       (entry \<lparr>rip = 0, rax = 0, rbx = 0, rdi = 0, rsi = 0, rdx = 0, zf = False, stack = [],
          cells = (\<lambda>_. 0), fd0 = [], fd1 = []\<rparr> 0x2000 []) = Some (Returned sf) \<and>
     rbx sf = 0x1000 \<and> unat (cells sf 0) = 254) \<and>
   bfJITCompile (replicate 3 (CHR ''+'') @ replicate 5 (CHR ''-'')) 0x1000 = Inl ReadPastEnd"
proof -
  have a: "nat ((int 3 - int 5) mod 256) = 254" by simp
  have b: "(3 :: nat) \<le> 255" "(5 :: nat) \<le> 255" "(0 :: nat) < 3 + 5" by simp_all
  from C8_plus_then_minus [OF b(1,2), of "[]" "0x1000" "0x2000"
      "\<lparr>rip = 0, rax = 0, rbx = 0, rdi = 0, rsi = 0, rdx = 0, zf = False, stack = [],
          cells = (\<lambda>_. 0), fd0 = [], fd1 = []\<rparr>"]
  show ?thesis unfolding a using b(3) by blast
qed

end
